theory Spec2Isabelle
  imports Main "HOL-Library.Sublist"
begin

section \<open>Strings as the script uses them\<close>

text \<open>
  The script \<^verbatim>\<open>reset_passwd.py\<close> works on Python \<^verbatim>\<open>str\<close> values read from a CSV
  export. A string is modelled as a list of characters, each character being a code point
  below 256 (the Latin-1 range of Unicode). On that range \<^verbatim>\<open>str.lower()\<close> maps
  \<^verbatim>\<open>A-Z\<close> and the code points 192 to 222 except 215 to the code point 32 higher and
  leaves every other character alone; \<^verbatim>\<open>str.strip()\<close> removes leading and trailing
  characters for which \<^verbatim>\<open>str.isspace()\<close> holds (9 to 13, 28 to 32, 133 and 160);
  \<^verbatim>\<open>a in b\<close> is the test for a contiguous substring.
\<close>

definition lower_char :: "char \<Rightarrow> char" where
  "lower_char c =
     (let n = (of_char c :: nat)
      in if (65 \<le> n \<and> n \<le> 90) \<or> (192 \<le> n \<and> n \<le> 222 \<and> n \<noteq> 215)
         then char_of (n + 32) else c)"

definition lower :: "string \<Rightarrow> string" where
  "lower s = map lower_char s"

definition isspace :: "char \<Rightarrow> bool" where
  "isspace c =
     (let n = (of_char c :: nat)
      in (9 \<le> n \<and> n \<le> 13) \<or> (28 \<le> n \<and> n \<le> 32) \<or> n = 133 \<or> n = 160)"

definition strip :: "string \<Rightarrow> string" where
  "strip s = rev (dropWhile isspace (rev (dropWhile isspace s)))"

text \<open>\<^verbatim>\<open>sub in s\<close>: some suffix of \<open>s\<close> starts with \<open>sub\<close>.\<close>

fun contains :: "string \<Rightarrow> string \<Rightarrow> bool" where
  "contains sub [] = (sub = [])"
| "contains sub (c # cs) = (take (length sub) (c # cs) = sub \<or> contains sub cs)"

text \<open>\<^verbatim>\<open>str(i)\<close> for a non-negative integer: its decimal digits.\<close>

definition digit_char :: "nat \<Rightarrow> char" where
  "digit_char d = char_of (48 + d)"

function str_nat :: "nat \<Rightarrow> string" where
  "str_nat n = (if n < 10 then [digit_char n] else str_nat (n div 10) @ [digit_char (n mod 10)])"
  by pat_completeness auto
termination
  by (relation "measure (\<lambda>n. n)") auto

declare str_nat.simps [simp del]

section \<open>Exceptions\<close>

text \<open>
  Every exception the modelled code can meet is a subclass of Python's \<^verbatim>\<open>Exception\<close>:
  \<^verbatim>\<open>IndexError\<close> from indexing a list out of range, selenium's
  \<^verbatim>\<open>TimeoutException\<close> from a bounded wait, and any other exception a library call
  raises (selenium's other \<^verbatim>\<open>WebDriverException\<close>s, the errors of
  \<^verbatim>\<open>requests\<close>), carried with its message.
\<close>

datatype exn = IndexError | TimeoutException | OtherException string

text \<open>\<^verbatim>\<open>row[i]\<close> for a non-negative index: raises \<^verbatim>\<open>IndexError\<close> out of range.\<close>

definition getitem :: "'a list \<Rightarrow> nat \<Rightarrow> exn + 'a" where
  "getitem xs i = (if i < length xs then Inr (xs ! i) else Inl IndexError)"

section \<open>Reading and filtering the sheet: \<^verbatim>\<open>read_google_sheet\<close>\<close>

text \<open>
  The five column indices the loop over the header assigns; each starts as \<^verbatim>\<open>None\<close>.
\<close>

record indices =
  order_status_index :: "nat option"
  setup_admin_index :: "nat option"
  activation_url_index :: "nat option"
  status_index :: "nat option"
  password_index :: "nat option"

definition no_indices :: indices where
  "no_indices = \<lparr>order_status_index = None, setup_admin_index = None,
     activation_url_index = None, status_index = None, password_index = None\<rparr>"

text \<open>
  One iteration of \<^verbatim>\<open>for i, col_name in enumerate(header)\<close>: the
  \<^verbatim>\<open>if/elif\<close> chain of lines 53 to 62, in the source's order.
\<close>

definition header_step :: "indices \<Rightarrow> nat \<times> string \<Rightarrow> indices" where
  "header_step ix p =
     (case p of (i, col_name) \<Rightarrow>
        if contains ''order_status'' (lower col_name) then ix\<lparr>order_status_index := Some i\<rparr>
        else if contains ''setup_admin'' (lower col_name) then ix\<lparr>setup_admin_index := Some i\<rparr>
        else if contains ''activation'' (lower col_name) \<and> contains ''url'' (lower col_name)
          then ix\<lparr>activation_url_index := Some i\<rparr>
        else if contains ''status'' (lower col_name) \<and> \<not> contains ''order'' (lower col_name)
          then ix\<lparr>status_index := Some i\<rparr>
        else if contains ''password'' (lower col_name) \<and> contains ''admin'' (lower col_name)
          then ix\<lparr>password_index := Some i\<rparr>
        else ix)"

definition find_indices :: "string list \<Rightarrow> indices" where
  "find_indices header = foldl header_step no_indices (enumerate 0 header)"

text \<open>
  The resolved columns, once the validation loop of lines 73 to 76 has found none of the
  five to be \<^verbatim>\<open>None\<close>.
\<close>

record roles =
  order_status_col :: nat
  setup_admin_col :: nat
  activation_url_col :: nat
  status_col :: nat
  password_col :: nat

definition resolve_roles :: "string list \<Rightarrow> roles option" where
  "resolve_roles header =
     (let ix = find_indices header in
      case order_status_index ix of None \<Rightarrow> None | Some a \<Rightarrow>
      case setup_admin_index ix of None \<Rightarrow> None | Some b \<Rightarrow>
      case activation_url_index ix of None \<Rightarrow> None | Some c \<Rightarrow>
      case status_index ix of None \<Rightarrow> None | Some d \<Rightarrow>
      case password_index ix of None \<Rightarrow> None | Some e \<Rightarrow>
        Some \<lparr>order_status_col = a, setup_admin_col = b, activation_url_col = c,
              status_col = d, password_col = e\<rparr>)"

definition max_index :: "roles \<Rightarrow> nat" where
  "max_index r = max (order_status_col r) (max (setup_admin_col r)
     (max (activation_url_col r) (max (status_col r) (password_col r))))"

text \<open>
  The condition of the list comprehension of lines 79 to 86. Python's \<^verbatim>\<open>and\<close> and
  \<^verbatim>\<open>or\<close> evaluate their right operand only when the left one does not decide, and
  each \<^verbatim>\<open>row[...]\<close> may raise; the model keeps both.
\<close>

definition keep_row :: "roles \<Rightarrow> string list \<Rightarrow> exn + bool" where
  "keep_row r row =
     (if \<not> (length row > max_index r) then Inr False else
      case getitem row (order_status_col r) of Inl e \<Rightarrow> Inl e | Inr v1 \<Rightarrow>
      if lower v1 \<noteq> ''success'' then Inr False else
      case getitem row (setup_admin_col r) of Inl e \<Rightarrow> Inl e | Inr v2 \<Rightarrow>
      if lower v2 \<noteq> ''success'' then Inr False else
      case getitem row (activation_url_col r) of Inl e \<Rightarrow> Inl e | Inr v3 \<Rightarrow>
      if \<not> (strip v3 \<noteq> []) then Inr False else
      case getitem row (status_col r) of Inl e \<Rightarrow> Inl e | Inr v4 \<Rightarrow>
      if strip v4 = [] then Inr True else
      case getitem row (status_col r) of Inl e \<Rightarrow> Inl e | Inr v5 \<Rightarrow>
        Inr (lower v5 = ''empty''))"

fun filter_rows :: "roles \<Rightarrow> string list list \<Rightarrow> exn + string list list" where
  "filter_rows r [] = Inr []"
| "filter_rows r (row # rows) =
     (case keep_row r row of
        Inl e \<Rightarrow> Inl e
      | Inr k \<Rightarrow>
          (case filter_rows r rows of
             Inl e \<Rightarrow> Inl e
           | Inr kept \<Rightarrow> Inr (if k then row # kept else kept)))"

text \<open>
  \<^verbatim>\<open>read_google_sheet\<close>. Its input is what \<^verbatim>\<open>list(csv.reader(...))\<close> gives for
  the fetched text, or the exception that the request, \<^verbatim>\<open>raise_for_status\<close> or the
  parser raised. The whole body sits in \<^verbatim>\<open>try ... except Exception\<close>, which returns
  \<^verbatim>\<open>(None, None)\<close>: that pair is \<open>None\<close> here, and \<^verbatim>\<open>(header, filtered_rows)\<close>
  is \<open>Some\<close>. The function's console output is not part of this model.
\<close>

definition read_google_sheet :: "exn + string list list \<Rightarrow> (string list \<times> string list list) option" where
  "read_google_sheet fetched =
     (case fetched of
        Inl e \<Rightarrow> None
      | Inr csv_reader \<Rightarrow>
          (case csv_reader of
             [] \<Rightarrow> None
           | header # rows \<Rightarrow>
               (case resolve_roles header of
                  None \<Rightarrow> None
                | Some r \<Rightarrow>
                    (case filter_rows r rows of
                       Inl e \<Rightarrow> None
                     | Inr filtered_rows \<Rightarrow> Some (header, filtered_rows)))))"

section \<open>Per-record extraction: \<^verbatim>\<open>extract_password_and_url\<close>\<close>

text \<open>
  The extractor resolves its two columns again, from the header, with its own
  \<^verbatim>\<open>if/elif\<close> chain (lines 123 to 127).
\<close>

definition extract_step :: "nat option \<times> nat option \<Rightarrow> nat \<times> string \<Rightarrow> nat option \<times> nat option" where
  "extract_step acc p =
     (case acc of (password_idx, url_idx) \<Rightarrow>
      case p of (i, col_name) \<Rightarrow>
        if contains ''password'' (lower col_name) \<and> contains ''admin'' (lower col_name)
          then (Some i, url_idx)
        else if contains ''activation'' (lower col_name) \<and> contains ''url'' (lower col_name)
          then (password_idx, Some i)
        else (password_idx, url_idx))"

definition extract_indices :: "string list \<Rightarrow> nat option \<times> nat option" where
  "extract_indices header = foldl extract_step (None, None) (enumerate 0 header)"

text \<open>
  The result \<^verbatim>\<open>(None, None)\<close> is \<open>None\<close>; both reads are guarded by the length
  test, so the \<^verbatim>\<open>except\<close> branch is never taken.
\<close>

definition extract_password_and_url :: "string list \<Rightarrow> string list \<Rightarrow> (string \<times> string) option" where
  "extract_password_and_url row header =
     (case extract_indices header of
        (Some password_idx, Some url_idx) \<Rightarrow>
          Some (if length row > password_idx then row ! password_idx else [],
                if length row > url_idx then row ! url_idx else [])
      | _ \<Rightarrow> None)"

section \<open>Preparing the work list: the first loop of \<^verbatim>\<open>main\<close>\<close>

text \<open>The tuple \<^verbatim>\<open>(domain_name, admin_password, activation_url, row_index, total_rows)\<close>.\<close>

record domain_data =
  domain_name :: string
  admin_password :: string
  activation_url :: string
  row_index :: nat
  total_rows :: nat

text \<open>
  One iteration of \<^verbatim>\<open>for i, row in enumerate(rows, 1)\<close> (lines 351 to 371): the
  tuple appended to \<^verbatim>\<open>domain_data_list\<close>, or nothing.
\<close>

definition prepare_row :: "string list \<Rightarrow> nat \<Rightarrow> nat \<times> string list \<Rightarrow> domain_data option" where
  "prepare_row header n_total p =
     (case p of (i, row) \<Rightarrow>
        if row = [] \<or> length row < 2 then None
        else
          (let name = (if row ! 0 \<noteq> [] then row ! 0 else ''Entry '' @ str_nat i) in
           (case extract_password_and_url row header of
              None \<Rightarrow> None
            | Some (pw, url) \<Rightarrow>
                (if pw \<noteq> [] \<and> url \<noteq> []
                 then Some \<lparr>domain_name = name, admin_password = pw, activation_url = url,
                            row_index = i, total_rows = n_total\<rparr>
                 else None))))"

definition domain_data_list :: "string list \<Rightarrow> string list list \<Rightarrow> domain_data list" where
  "domain_data_list header rows =
     List.map_filter (prepare_row header (length rows)) (enumerate 1 rows)"

section \<open>The outside world: browser, transport, console\<close>

text \<open>
  A \<^verbatim>\<open>WebElement\<close> is identified by a number. The calls the workers make on the
  browser session, on \<^verbatim>\<open>time\<close> and on \<^verbatim>\<open>requests\<close> are listed in \<open>call\<close>;
  \<open>Post i st d\<close> is \<^verbatim>\<open>requests.post(apps_script_url, json=data)\<close> with
  \<^verbatim>\<open>data = {"row_index": i, "status": st}\<close> and, when \<open>d\<close> is \<open>Some\<close>, the key
  \<^verbatim>\<open>"domain"\<close>.
\<close>

type_synonym elem = nat

datatype locator = CSS_SELECTOR | XPATH

datatype call =
    NewDriver
  | MaximizeWindow
  | Get string
  | Sleep nat
  | Title
  | WaitClickable nat locator string
  | Click elem
  | FindElements locator string
  | Clear elem
  | SendKeys elem string
  | Quit
  | Post nat string "string option"

text \<open>
  One constructor for each \<^verbatim>\<open>print\<close> of the worker functions, carrying the values
  the f-string interpolates.
\<close>

datatype msg =
    InvalidParameters string string string
  | Processing string
  | AdminPassword string
  | Url string
  | PageLoaded string
  | UnderstandClicked string
  | UnderstandNotFound string
  | AfterUnderstandLoaded string
  | FirstFieldFilled
  | SecondFieldFilled
  | PasswordFieldsNotFound
  | ChangeClicked
  | ChangeNotFound
  | Completed string
  | ErrorProcessing string exn
  | BrowserClosed string
  | ErrorClosing string exn
  | StatusUpdated nat "string option" string
  | StatusFailed nat
  | StatusError exn
  | ThreadBanner string nat nat nat
  | Domain string
  | ActivationUrl string
  | Skipping string

text \<open>
  What a worker does, in order: a line printed, a call made (with the exception it raised,
  if it raised one), and the acquisition and release of \<^verbatim>\<open>sheet_update_lock\<close>.
\<close>

datatype event = Print msg | Call call "exn option" | Acquire | Release

text \<open>
  The world answers each call; its answer may depend on everything the worker has done so
  far. The fields are split by the type of the value the call returns. The thread's name
  and identifier are what \<^verbatim>\<open>threading.current_thread()\<close> reports.
\<close>

record world =
  thread_name :: string
  thread_ident :: nat
  unit_result :: "event list \<Rightarrow> call \<Rightarrow> exn option"
  title_result :: "event list \<Rightarrow> exn + string"
  wait_result :: "event list \<Rightarrow> call \<Rightarrow> exn + elem"
  find_result :: "event list \<Rightarrow> call \<Rightarrow> exn + elem list"
  post_result :: "event list \<Rightarrow> call \<Rightarrow> exn + nat"

text \<open>
  The state a worker threads through: the events so far, and the local variable
  \<^verbatim>\<open>driver\<close> of \<^verbatim>\<open>process_password_change\<close> (\<open>False\<close> is \<^verbatim>\<open>None\<close>).
\<close>

record state =
  trace :: "event list"
  driver :: bool

type_synonym 'a prog = "state \<Rightarrow> (exn + 'a) \<times> state"

definition ret :: "'a \<Rightarrow> 'a prog" where
  "ret v s = (Inr v, s)"

definition bnd :: "'a prog \<Rightarrow> ('a \<Rightarrow> 'b prog) \<Rightarrow> 'b prog" where
  "bnd m f s = (case m s of (Inl e, s') \<Rightarrow> (Inl e, s') | (Inr v, s') \<Rightarrow> f v s')"

definition seq :: "'a prog \<Rightarrow> 'b prog \<Rightarrow> 'b prog" where
  "seq m n = bnd m (\<lambda>_. n)"

text \<open>\<^verbatim>\<open>try: m except Exception as e: h e\<close> (a bare \<^verbatim>\<open>except:\<close> is the same here).\<close>

definition try_except :: "'a prog \<Rightarrow> (exn \<Rightarrow> 'a prog) \<Rightarrow> 'a prog" where
  "try_except m h s = (case m s of (Inl e, s') \<Rightarrow> h e s' | (Inr v, s') \<Rightarrow> (Inr v, s'))"

text \<open>\<^verbatim>\<open>try: m except TimeoutException: h\<close>: every other exception goes on.\<close>

definition try_except_timeout :: "'a prog \<Rightarrow> 'a prog \<Rightarrow> 'a prog" where
  "try_except_timeout m h s =
     (case m s of
        (Inl TimeoutException, s') \<Rightarrow> h s'
      | (r, s') \<Rightarrow> (r, s'))"

text \<open>
  \<^verbatim>\<open>try: m finally: fin\<close>: the \<^verbatim>\<open>finally\<close> block runs on every exit of \<open>m\<close>; an
  exception it raises replaces the outcome of \<open>m\<close>.
\<close>

definition try_finally :: "'a prog \<Rightarrow> unit prog \<Rightarrow> 'a prog" where
  "try_finally m fin s =
     (case m s of (r, s') \<Rightarrow>
        (case fin s' of (Inl e, s'') \<Rightarrow> (Inl e, s'') | (Inr _, s'') \<Rightarrow> (r, s'')))"

definition emit :: "event \<Rightarrow> unit prog" where
  "emit ev s = (Inr (), s\<lparr>trace := trace s @ [ev]\<rparr>)"

definition print :: "msg \<Rightarrow> unit prog" where
  "print m = emit (Print m)"

definition perform :: "call \<Rightarrow> exn + 'a \<Rightarrow> 'a prog" where
  "perform c r s =
     (r, s\<lparr>trace := trace s @ [Call c (case r of Inl e \<Rightarrow> Some e | Inr _ \<Rightarrow> None)]\<rparr>)"

definition call_unit :: "world \<Rightarrow> call \<Rightarrow> unit prog" where
  "call_unit w c s =
     perform c (case unit_result w (trace s) c of None \<Rightarrow> Inr () | Some e \<Rightarrow> Inl e) s"

definition call_title :: "world \<Rightarrow> string prog" where
  "call_title w s = perform Title (title_result w (trace s)) s"

definition call_wait :: "world \<Rightarrow> call \<Rightarrow> elem prog" where
  "call_wait w c s = perform c (wait_result w (trace s) c) s"

definition call_find :: "world \<Rightarrow> call \<Rightarrow> elem list prog" where
  "call_find w c s = perform c (find_result w (trace s) c) s"

definition call_post :: "world \<Rightarrow> call \<Rightarrow> nat prog" where
  "call_post w c s = perform c (post_result w (trace s) c) s"

text \<open>\<^verbatim>\<open>time.sleep(n)\<close> returns after \<open>n\<close> seconds and never raises.\<close>

definition sleep :: "nat \<Rightarrow> unit prog" where
  "sleep n = perform (Sleep n) (Inr ())"

text \<open>\<^verbatim>\<open>driver = Driver(uc=True, incognito=True, headless=False)\<close>: the variable is
  assigned only when the constructor returns.\<close>

definition new_driver :: "world \<Rightarrow> unit prog" where
  "new_driver w s =
     (case unit_result w (trace s) NewDriver of
        None \<Rightarrow> (Inr (), s\<lparr>trace := trace s @ [Call NewDriver None], driver := True\<rparr>)
      | Some e \<Rightarrow> (Inl e, s\<lparr>trace := trace s @ [Call NewDriver (Some e)]\<rparr>))"

section \<open>The status write-back: \<^verbatim>\<open>update_status_in_sheet\<close>\<close>

text \<open>
  \<^verbatim>\<open>with sheet_update_lock:\<close> acquires the lock and releases it on every exit of its
  body; the body is one \<^verbatim>\<open>try ... except Exception\<close>. The argument
  \<^verbatim>\<open>domain_name\<close> defaults to \<^verbatim>\<open>None\<close>; \<^verbatim>\<open>if domain_name:\<close> holds for a
  non-empty string.
\<close>

definition truthy :: "string option \<Rightarrow> bool" where
  "truthy d = (case d of None \<Rightarrow> False | Some x \<Rightarrow> x \<noteq> [])"

definition update_status_in_sheet :: "world \<Rightarrow> nat \<Rightarrow> string \<Rightarrow> string option \<Rightarrow> unit prog" where
  "update_status_in_sheet w row_ix status dname =
     seq (emit Acquire)
       (try_finally
          (try_except
             (bnd (call_post w (Post row_ix status (if truthy dname then dname else None)))
                (\<lambda>status_code.
                   if status_code = 200
                   then print (StatusUpdated row_ix (if truthy dname then dname else None) status)
                   else print (StatusFailed status_code)))
             (\<lambda>e. print (StatusError e)))
          (emit Release))"

section \<open>The action executor: \<^verbatim>\<open>process_password_change\<close>\<close>

definition google_confirm_selectors :: "string list" where
  "google_confirm_selectors =
     [''input[type='' @ [CHR 0x27] @ ''submit'' @ [CHR 0x27] @ ''][name='' @ [CHR 0x27] @ ''confirm''
        @ [CHR 0x27] @ ''][value='' @ [CHR 0x27] @ ''I understand'' @ [CHR 0x27] @ '']'',
      ''input[name='' @ [CHR 0x27] @ ''confirm'' @ [CHR 0x27] @ ''][value='' @ [CHR 0x27]
        @ ''I understand'' @ [CHR 0x27] @ '']'',
      ''input[value='' @ [CHR 0x27] @ ''I understand'' @ [CHR 0x27] @ '']'',
      ''input[type='' @ [CHR 0x27] @ ''submit'' @ [CHR 0x27] @ ''][id='' @ [CHR 0x27] @ ''confirm''
        @ [CHR 0x27] @ '']'',
      ''input[id='' @ [CHR 0x27] @ ''confirm'' @ [CHR 0x27] @ '']'',
      ''input[class*='' @ [CHR 0x27] @ ''MK9CEd'' @ [CHR 0x27] @ ''][class*='' @ [CHR 0x27]
        @ ''MVpUfe'' @ [CHR 0x27] @ '']'',
      ''input[jsname='' @ [CHR 0x27] @ ''M2UYVd'' @ [CHR 0x27] @ '']'']"

definition password_selectors :: "string list" where
  "password_selectors =
     [''input[type='' @ [CHR 0x27] @ ''password'' @ [CHR 0x27] @ '']'',
      ''input[name*='' @ [CHR 0x27] @ ''password'' @ [CHR 0x27] @ '']'',
      ''input[id*='' @ [CHR 0x27] @ ''password'' @ [CHR 0x27] @ '']'',
      ''input[placeholder*='' @ [CHR 0x27] @ ''password'' @ [CHR 0x27] @ '']'']"

definition change_password_selectors :: "string list" where
  "change_password_selectors =
     [''button:contains('' @ [CHR 0x27] @ ''Change password'' @ [CHR 0x27] @ '')'',
      ''input[value='' @ [CHR 0x27] @ ''Change password'' @ [CHR 0x27] @ '']'',
      ''button[type='' @ [CHR 0x27] @ ''submit'' @ [CHR 0x27] @ '']'',
      ''.btn-primary'',
      ''button:contains('' @ [CHR 0x27] @ ''Submit'' @ [CHR 0x27] @ '')'']"

definition change_xpath :: string where
  "change_xpath = ''//button[contains(text(), '' @ [CHR 0x27] @ ''Change password'' @ [CHR 0x27] @ '')]''"

text \<open>
  The loop of lines 178 to 188; its value is \<^verbatim>\<open>button_clicked\<close>. The wait and the
  click are both inside the \<^verbatim>\<open>try\<close>, so a \<^verbatim>\<open>TimeoutException\<close> from either moves
  on to the next selector.
\<close>

fun click_confirm :: "world \<Rightarrow> string \<Rightarrow> string list \<Rightarrow> bool prog" where
  "click_confirm w dname [] = ret False"
| "click_confirm w dname (selector # rest) =
     try_except_timeout
       (bnd (call_wait w (WaitClickable 5 CSS_SELECTOR selector))
          (\<lambda>confirm_btn.
             seq (call_unit w (Click confirm_btn))
               (seq (print (UnderstandClicked dname)) (ret True))))
       (click_confirm w dname rest)"

text \<open>The loop of lines 207 to 212; its value is \<^verbatim>\<open>password_inputs\<close>.\<close>

fun find_password_inputs :: "world \<Rightarrow> string list \<Rightarrow> elem list \<Rightarrow> elem list prog" where
  "find_password_inputs w [] password_inputs = ret password_inputs"
| "find_password_inputs w (selector # rest) password_inputs =
     bnd (try_except
            (bnd (call_find w (FindElements CSS_SELECTOR selector))
               (\<lambda>inputs. ret (password_inputs @ inputs)))
            (\<lambda>e. ret password_inputs))
       (\<lambda>extended. find_password_inputs w rest extended)"

text \<open>The loop of lines 238 to 255; its value is \<^verbatim>\<open>change_clicked\<close>.\<close>

fun click_change :: "world \<Rightarrow> string list \<Rightarrow> bool prog" where
  "click_change w [] = ret False"
| "click_change w (selector # rest) =
     try_except_timeout
       (bnd (if contains '':contains'' selector
             then call_wait w (WaitClickable 3 XPATH change_xpath)
             else call_wait w (WaitClickable 3 CSS_SELECTOR selector))
          (\<lambda>change_btn.
             seq (call_unit w (Click change_btn))
               (seq (print ChangeClicked) (ret True))))
       (click_change w rest)"

text \<open>Lines 216 to 223: the first two entries of \<^verbatim>\<open>password_inputs\<close> are filled.\<close>

definition fill_first_two :: "world \<Rightarrow> string \<Rightarrow> elem list \<Rightarrow> unit prog" where
  "fill_first_two w pw password_inputs =
     seq (call_unit w (Clear (password_inputs ! 0)))
    (seq (call_unit w (SendKeys (password_inputs ! 0) pw))
    (seq (print FirstFieldFilled)
    (seq (call_unit w (Clear (password_inputs ! 1)))
    (seq (call_unit w (SendKeys (password_inputs ! 1) pw))
         (print SecondFieldFilled)))))"

text \<open>
  The \<^verbatim>\<open>try\<close> body, cut at the source's step comments; each piece runs to the end of
  the body, so a \<^verbatim>\<open>return\<close> in it is the value of the whole body.
  \<open>change_step\<close> is lines 228 to 265, \<open>password_step\<close> lines 198 to 265,
  \<open>confirm_step\<close> lines 166 to 265, \<open>session_steps\<close> lines 158 to 265 and
  \<open>try_body\<close> lines 147 to 265.
\<close>

definition change_step :: "world \<Rightarrow> string \<Rightarrow> nat \<Rightarrow> bool prog" where
  "change_step w dname row_ix =
     bnd (click_change w change_password_selectors)
       (\<lambda>change_clicked.
          if \<not> change_clicked then seq (print ChangeNotFound) (ret False)
          else seq (print (Completed dname))
                 (seq (update_status_in_sheet w row_ix ''success'' (Some dname)) (ret True)))"

definition password_step :: "world \<Rightarrow> string \<Rightarrow> string \<Rightarrow> nat \<Rightarrow> bool prog" where
  "password_step w pw dname row_ix =
     bnd (find_password_inputs w password_selectors [])
       (\<lambda>password_inputs.
          if length password_inputs \<ge> 2
          then seq (fill_first_two w pw password_inputs) (change_step w dname row_ix)
          else seq (print PasswordFieldsNotFound) (ret False))"

definition confirm_step :: "world \<Rightarrow> string \<Rightarrow> string \<Rightarrow> nat \<Rightarrow> bool prog" where
  "confirm_step w pw dname row_ix =
     bnd (click_confirm w dname google_confirm_selectors)
       (\<lambda>button_clicked.
          if \<not> button_clicked then seq (print (UnderstandNotFound dname)) (ret False)
          else
            seq (sleep 3)
           (bnd (call_title w) (\<lambda>title. seq (print (AfterUnderstandLoaded title))
                (password_step w pw dname row_ix))))"

definition mask :: "string \<Rightarrow> string" where
  "mask pw = (if pw \<noteq> [] then replicate (length pw) (CHR ''*'') else ''None'')"

definition session_steps :: "world \<Rightarrow> string \<Rightarrow> string \<Rightarrow> string \<Rightarrow> nat \<Rightarrow> bool prog" where
  "session_steps w url pw dname row_ix =
     seq (call_unit w MaximizeWindow)
    (seq (call_unit w (Get url))
    (seq (sleep 3)
    (bnd (call_title w) (\<lambda>title. seq (print (PageLoaded title))
         (confirm_step w pw dname row_ix)))))"

definition try_body :: "world \<Rightarrow> string \<Rightarrow> string \<Rightarrow> string \<Rightarrow> nat \<Rightarrow> bool prog" where
  "try_body w url pw dname row_ix =
     (if url = [] \<or> pw = [] \<or> dname = []
      then seq (print (InvalidParameters url (mask pw) dname)) (ret False)
      else
        seq (print (Processing dname))
       (seq (print (AdminPassword pw))
       (seq (print (Url url))
       (seq (new_driver w)
            (session_steps w url pw dname row_ix)))))"

text \<open>Lines 267 to 271.\<close>

definition except_block :: "world \<Rightarrow> string \<Rightarrow> nat \<Rightarrow> exn \<Rightarrow> bool prog" where
  "except_block w dname row_ix e =
     seq (print (ErrorProcessing dname e))
    (seq (update_status_in_sheet w row_ix ''error'' (Some dname)) (ret False))"

text \<open>Lines 273 to 280.\<close>

definition finally_block :: "world \<Rightarrow> string \<Rightarrow> unit prog" where
  "finally_block w dname s =
     (if driver s
      then try_except (seq (call_unit w Quit) (print (BrowserClosed dname)))
             (\<lambda>e. print (ErrorClosing dname e)) s
      else (Inr (), s))"

definition process_password_change :: "world \<Rightarrow> string \<Rightarrow> string \<Rightarrow> string \<Rightarrow> nat \<Rightarrow> bool prog" where
  "process_password_change w url pw dname row_ix s =
     try_finally
       (try_except (try_body w url pw dname row_ix) (except_block w dname row_ix))
       (finally_block w dname)
       (s\<lparr>driver := False\<rparr>)"

section \<open>One worker task: \<^verbatim>\<open>process_single_domain\<close>\<close>

definition process_single_domain :: "world \<Rightarrow> domain_data \<Rightarrow> bool prog" where
  "process_single_domain w d =
     seq (print (ThreadBanner (thread_name w) (thread_ident w) (row_index d) (total_rows d)))
    (seq (print (Domain (domain_name d)))
    (seq (print (AdminPassword (admin_password d)))
    (seq (print (ActivationUrl (activation_url d)))
       (if admin_password d = [] \<or> activation_url d = []
        then seq (print (Skipping (domain_name d))) (ret False)
        else try_except
               (process_password_change w (activation_url d) (admin_password d)
                  (domain_name d) (row_index d))
               (\<lambda>e. seq (print (ErrorProcessing (domain_name d) e)) (ret False))))))"

definition start :: state where
  "start = \<lparr>trace = [], driver = False\<rparr>"

section \<open>The dispatcher: the second half of \<^verbatim>\<open>main\<close>\<close>

text \<open>
  \<^verbatim>\<open>future.result()\<close> of the task submitted for one tuple: the value
  \<^verbatim>\<open>process_single_domain\<close> returns, or the exception it raises. Each task drives its
  own browser session, so each has its own world.
\<close>

definition run_task :: "world \<Rightarrow> domain_data \<Rightarrow> exn + bool" where
  "run_task w d = fst (process_single_domain w d start)"




section \<open>Interleaved workers and \<^verbatim>\<open>sheet_update_lock\<close>\<close>

text \<open>
  Workers run concurrently. Each worker is what remains of its sequence of events, with a
  flag that is set while the call at the head of that sequence has begun and not yet
  returned. A configuration is the holder of \<^verbatim>\<open>sheet_update_lock\<close> and the workers.
  One step is one worker moving: printing, beginning a call, returning from it, acquiring
  the lock (possible only while nobody holds it, as \<^verbatim>\<open>threading.Lock\<close> blocks
  otherwise) or releasing it.
\<close>

type_synonym worker = "bool \<times> event list"

type_synonym config = "nat option \<times> worker list"

inductive step :: "config \<Rightarrow> config \<Rightarrow> bool" where
  step_print: "i < length ws \<Longrightarrow> ws ! i = (False, Print m # es)
     \<Longrightarrow> step (l, ws) (l, ws[i := (False, es)])"
| step_begin: "i < length ws \<Longrightarrow> ws ! i = (False, Call c r # es)
     \<Longrightarrow> step (l, ws) (l, ws[i := (True, Call c r # es)])"
| step_return: "i < length ws \<Longrightarrow> ws ! i = (True, Call c r # es)
     \<Longrightarrow> step (l, ws) (l, ws[i := (False, es)])"
| step_acquire: "i < length ws \<Longrightarrow> ws ! i = (False, Acquire # es) \<Longrightarrow> l = None
     \<Longrightarrow> step (l, ws) (Some i, ws[i := (False, es)])"
| step_release: "i < length ws \<Longrightarrow> ws ! i = (False, Release # es)
     \<Longrightarrow> step (l, ws) (None, ws[i := (False, es)])"

definition initial :: "(world \<times> domain_data) list \<Rightarrow> config" where
  "initial tasks =
     (None, map (\<lambda>(w, d). (False, trace (snd (process_single_domain w d start)))) tasks)"

fun is_post :: "event \<Rightarrow> bool" where
  "is_post (Call (Post i st d) r) = True"
| "is_post _ = False"

text \<open>A worker is inside the transport call when a \<^verbatim>\<open>requests.post\<close> has begun.\<close>

fun in_transport :: "worker \<Rightarrow> bool" where
  "in_transport (b, e # es) = (b \<and> is_post e)"
| "in_transport (b, []) = False"

definition depth :: "config \<Rightarrow> nat" where
  "depth cfg = length (filter in_transport (snd cfg))"

section \<open>The specification's filter predicate\<close>

text \<open>
  The four conditions as the specification words them, stated without the functions the
  code calls. Two strings are equal case-insensitively when they have the same length
  and, position by position, the same character or the small and the capital form of one
  letter. A string is empty after trimming when it holds nothing but white space: tab,
  line feed, vertical tab, form feed, carriage return, the four separators 28 to 31,
  space, next line (133) and no-break space (160).
\<close>

definition letter_pairs :: "(char \<times> char) list" where
  "letter_pairs = zip ''abcdefghijklmnopqrstuvwxyz'' ''ABCDEFGHIJKLMNOPQRSTUVWXYZ''"

definition same_letter :: "char \<Rightarrow> char \<Rightarrow> bool" where
  "same_letter c d = (c = d \<or> (c, d) \<in> set letter_pairs \<or> (d, c) \<in> set letter_pairs)"

definition equals_ci :: "string \<Rightarrow> string \<Rightarrow> bool" where
  "equals_ci a b = list_all2 same_letter a b"

definition whitespace :: "char list" where
  "whitespace = [CHR 0x09, CHR 0x0A, CHR 0x0B, CHR 0x0C, CHR 0x0D, CHR 0x1C, CHR 0x1D,
     CHR 0x1E, CHR 0x1F, CHR '' '', CHR 0x85, CHR 0xA0]"

definition blank :: "string \<Rightarrow> bool" where
  "blank s = list_all (\<lambda>c. c \<in> set whitespace) s"

definition matches :: "roles \<Rightarrow> string list \<Rightarrow> bool" where
  "matches r row =
     (max_index r < length row
      \<and> equals_ci (row ! order_status_col r) ''success''
      \<and> equals_ci (row ! setup_admin_col r) ''success''
      \<and> \<not> blank (row ! activation_url_col r)
      \<and> (blank (row ! status_col r) \<or> equals_ci (row ! status_col r) ''empty''))"



section \<open>Reading a worker's events\<close>

fun is_quit :: "event \<Rightarrow> bool" where
  "is_quit (Call Quit r) = True"
| "is_quit _ = False"

text \<open>A session is open once the \<^verbatim>\<open>Driver\<close> constructor has returned.\<close>

fun is_open :: "event \<Rightarrow> bool" where
  "is_open (Call NewDriver None) = True"
| "is_open _ = False"

fun is_new_driver :: "event \<Rightarrow> bool" where
  "is_new_driver (Call NewDriver r) = True"
| "is_new_driver _ = False"

text \<open>The lines a worker writes to the console.\<close>

fun console :: "event list \<Rightarrow> msg list" where
  "console [] = []"
| "console (Print m # es) = m # console es"
| "console (e # es) = console es"


text \<open>
  Events that touch neither the lock, the transport nor the life of the session.
\<close>

definition plain :: "event \<Rightarrow> bool" where
  "plain e = (e \<noteq> Acquire \<and> e \<noteq> Release \<and> \<not> is_post e \<and> \<not> is_quit e \<and> \<not> is_new_driver e)"

text \<open>Events among which no session is created and none is closed.\<close>

definition quiet :: "event list \<Rightarrow> bool" where
  "quiet es = list_all (\<lambda>e. \<not> is_quit e \<and> \<not> is_new_driver e) es"

text \<open>
  \<open>lock_ok h es\<close>: starting with the lock held (\<open>h\<close>) or not, the events acquire only
  when it is not held, release and post only while it is held, and end with it released.
\<close>

fun lock_ok :: "bool \<Rightarrow> event list \<Rightarrow> bool" where
  "lock_ok h [] = (\<not> h)"
| "lock_ok h (Acquire # es) = (\<not> h \<and> lock_ok True es)"
| "lock_ok h (Release # es) = (h \<and> lock_ok False es)"
| "lock_ok h (Call c r # es) = ((is_post (Call c r) \<longrightarrow> h) \<and> lock_ok h es)"
| "lock_ok h (Print m # es) = lock_ok h es"

text \<open>
  In a configuration, what remains of each worker is well-formed for the lock, held for
  the holder and not held for everybody else.
\<close>

definition lock_inv :: "config \<Rightarrow> bool" where
  "lock_inv cfg =
     (\<forall>i < length (snd cfg). lock_ok (fst cfg = Some i) (snd (snd cfg ! i)))"

section \<open>Predicates on programs\<close>

definition no_raise :: "'a prog \<Rightarrow> bool" where
  "no_raise m = (\<forall>s. \<exists>v s'. m s = (Inr v, s'))"

text \<open>
  \<open>emits P m\<close>: running \<open>m\<close> only appends events, and what it appends satisfies \<open>P\<close>;
  \<open>steady P m\<close>: moreover \<open>m\<close> leaves the variable \<^verbatim>\<open>driver\<close> alone.
\<close>

definition emits :: "(event list \<Rightarrow> bool) \<Rightarrow> 'a prog \<Rightarrow> bool" where
  "emits P m = (\<forall>s. \<exists>es. trace (snd (m s)) = trace s @ es \<and> P es)"

definition steady :: "(event list \<Rightarrow> bool) \<Rightarrow> 'a prog \<Rightarrow> bool" where
  "steady P m = (\<forall>s. driver (snd (m s)) = driver s \<and> (\<exists>es. trace (snd (m s)) = trace s @ es \<and> P es))"

definition appendable :: "(event list \<Rightarrow> bool) \<Rightarrow> bool" where
  "appendable P = (P [] \<and> (\<forall>a b. P a \<longrightarrow> P b \<longrightarrow> P (a @ b)))"

text \<open>
  \<open>admits P\<close>: \<open>P\<close> holds of every plain event and of the four events of one status
  write-back, and is kept by concatenation.
\<close>

definition admits :: "(event list \<Rightarrow> bool) \<Rightarrow> bool" where
  "admits P = (appendable P \<and> (\<forall>e. plain e \<longrightarrow> P [e])
     \<and> (\<forall>i st d r m. P [Acquire, Call (Post i st d) r, Print m, Release]))"

text \<open>Two programs agree on what they return, whatever they do to the state.\<close>

definition same_result :: "'a prog \<Rightarrow> 'a prog \<Rightarrow> bool" where
  "same_result m n = (\<forall>s. fst (m s) = fst (n s))"

section \<open>Concrete inputs\<close>

text \<open>The header and the row of the specification's first scenario.\<close>

definition spec_header :: "string list" where
  "spec_header = [''domain'', ''order_status'', ''setup_admin'', ''activation_url'',
     ''status'', ''admin_password'']"

definition spec_row :: "string list" where
  "spec_row = [''acme.com'', ''success'', ''success'', ''https://x/y'', '''', ''secret123'']"

definition spec_roles :: roles where
  "spec_roles = \<lparr>order_status_col = 1, setup_admin_col = 2, activation_url_col = 3,
     status_col = 4, password_col = 5\<rparr>"

text \<open>
  Rows that differ from it in case and padding: capitals in both status columns with a
  status of two spaces; a status \<^verbatim>\<open>EMPTY\<close> with a padded URL; a URL of spaces only; a
  status \<^verbatim>\<open>empty\<close> with a space on each side; an order status \<^verbatim>\<open>succes\<close>.
\<close>

definition capitals_row :: "string list" where
  "capitals_row = [''acme.com'', ''SUCCESS'', ''SuCcEsS'', ''https://x/y'', ''  '', ''secret123'']"

definition empty_word_row :: "string list" where
  "empty_word_row = [''acme.com'', ''success'', ''Success'', '' https://x/y '', ''EMPTY'', ''secret123'']"

definition blank_url_row :: "string list" where
  "blank_url_row = [''acme.com'', ''success'', ''success'', ''   '', [], ''secret123'']"

definition padded_status_row :: "string list" where
  "padded_status_row = [''acme.com'', ''success'', ''success'', ''https://x/y'', '' empty '', ''secret123'']"

definition misspelt_row :: "string list" where
  "misspelt_row = [''acme.com'', ''succes'', ''success'', ''https://x/y'', [], ''secret123'']"

text \<open>A sheet whose first data row is already done and whose second qualifies.\<close>

definition done_row :: "string list" where
  "done_row = [''old.com'', ''success'', ''success'', ''https://x/old'', ''done'', ''secret000'']"

definition two_row_sheet :: "string list list" where
  "two_row_sheet = [spec_header, done_row, spec_row]"


text \<open>A header with a column for the status of the password next to the password.\<close>

definition status_header :: "string list" where
  "status_header = [''domain'', ''order_status'', ''setup_admin'', ''activation_url'',
     ''admin_password'', ''admin_password_status'']"

definition status_row :: "string list" where
  "status_row = [''acme.com'', ''success'', ''success'', ''https://x/y'', ''secret123'', ''empty'']"

text \<open>
  A page on which every call succeeds: each wait finds element 1, and the first password
  selector finds the fields 7 and 8.
\<close>

definition page_ok :: world where
  "page_ok = \<lparr>thread_name = ''ThreadPoolExecutor-0_0'', thread_ident = 1,
     unit_result = (\<lambda>tr c. None),
     title_result = (\<lambda>tr. Inr ''Sign in''),
     wait_result = (\<lambda>tr c. Inr 1),
     find_result = (\<lambda>tr c. if c = FindElements CSS_SELECTOR (password_selectors ! 0)
                            then Inr [7, 8] else Inr []),
     post_result = (\<lambda>tr c. Inr 200)\<rparr>"

text \<open>The same page without an acknowledgment control: every wait times out.\<close>

definition page_no_ack :: world where
  "page_no_ack = page_ok\<lparr>wait_result := (\<lambda>tr c. Inl TimeoutException)\<rparr>"

text \<open>
  A page with a single field \<^verbatim>\<open><input type='password' name='password'>\<close>, element 7,
  which the first two password selectors both find.
\<close>

definition page_one_field :: world where
  "page_one_field = page_ok\<lparr>find_result :=
     (\<lambda>tr c. if c = FindElements CSS_SELECTOR (password_selectors ! 0)
                \<or> c = FindElements CSS_SELECTOR (password_selectors ! 1)
              then Inr [7] else Inr [])\<rparr>"

text \<open>
  The page that works with a navigation that raises, and with a transport that fails or
  answers 500.
\<close>

definition page_get_fails :: world where
  "page_get_fails = page_ok\<lparr>unit_result :=
     (\<lambda>tr c. if c = Get ''https://x/y'' then Some (OtherException ''ERR_NAME_NOT_RESOLVED'')
              else None)\<rparr>"

definition transport_down :: world where
  "transport_down = page_ok\<lparr>post_result := (\<lambda>tr c. Inl (OtherException ''connection refused''))\<rparr>"

definition transport_500 :: world where
  "transport_500 = page_ok\<lparr>post_result := (\<lambda>tr c. Inr 500)\<rparr>"

definition acme :: domain_data where
  "acme = \<lparr>domain_name = ''acme.com'', admin_password = ''secret123'',
     activation_url = ''https://x/y'', row_index = 1, total_rows = 1\<rparr>"

text \<open>
  Two tasks for the same record on the page that works, and the configuration in which
  the first is inside its write-back while the second waits for the lock.
\<close>

definition two_tasks :: "(world \<times> domain_data) list" where
  "two_tasks = [(page_ok, acme), (page_ok, acme)]"

definition write_back_events :: "event list" where
  "write_back_events =
     [Call (Post 1 ''success'' (Some ''acme.com'')) None,
      Print (StatusUpdated 1 (Some ''acme.com'') ''success''), Release,
      Call Quit None, Print (BrowserClosed ''acme.com'')]"

definition one_posting :: config where
  "one_posting = (Some 0, [(True, write_back_events), (False, Acquire # write_back_events)])"

text \<open>Events a worker can pass whoever holds the lock.\<close>

definition lock_free :: "event \<Rightarrow> bool" where
  "lock_free e = (e \<noteq> Acquire \<and> e \<noteq> Release)"

section \<open>The filter\<close>

text \<open>Every character is \<open>char_of\<close> its code point, which is below 256.\<close>

lemma char_code:
  obtains n :: nat where "c = char_of n" and "n < 256"
  by (metis char_of_char nat_of_char_less_256)

lemma isspace_whitespace: "isspace c = (c \<in> set whitespace)"
proof -
  obtain n :: nat where c: "c = char_of n" and n: "n < 256" by (rule char_code)
  show ?thesis
    unfolding c using n
    by (simp add: isspace_def whitespace_def Let_def char_of_eq_iff take_bit_eq_mod) arith
qed

lemma dropWhile_all: "(\<forall>x\<in>set (dropWhile P xs). P x) = (\<forall>x\<in>set xs. P x)"
  by (induction xs) auto

lemma strip_blank: "(strip s = []) = blank s"
proof -
  have "(strip s = []) = (\<forall>c\<in>set s. isspace c)"
    by (simp add: strip_def dropWhile_eq_Nil_conv dropWhile_all)
  then show ?thesis
    by (simp add: blank_def list_all_iff isspace_whitespace)
qed

text \<open>
  For each letter of the two words the filter compares with, \<^verbatim>\<open>lower\<close> gives that
  letter exactly for the letter itself and for its capital.
\<close>

lemma lower_char_same_letter:
  assumes "d \<in> set ''sucempty''"
  shows "(lower_char c = d) = same_letter c d"
proof -
  obtain n :: nat where c: "c = char_of n" and n: "n < 256" by (rule char_code)
  from assms consider "d = CHR ''s''" | "d = CHR ''u''" | "d = CHR ''c''" | "d = CHR ''e''"
    | "d = CHR ''m''" | "d = CHR ''p''" | "d = CHR ''t''" | "d = CHR ''y''" by auto
  then show ?thesis
  proof cases
    case 1 show ?thesis unfolding c 1 using n
      by (simp add: lower_char_def same_letter_def letter_pairs_def Let_def char_of_eq_iff
          take_bit_eq_mod) arith
  next
    case 2 show ?thesis unfolding c 2 using n
      by (simp add: lower_char_def same_letter_def letter_pairs_def Let_def char_of_eq_iff
          take_bit_eq_mod) arith
  next
    case 3 show ?thesis unfolding c 3 using n
      by (simp add: lower_char_def same_letter_def letter_pairs_def Let_def char_of_eq_iff
          take_bit_eq_mod) arith
  next
    case 4 show ?thesis unfolding c 4 using n
      by (simp add: lower_char_def same_letter_def letter_pairs_def Let_def char_of_eq_iff
          take_bit_eq_mod) arith
  next
    case 5 show ?thesis unfolding c 5 using n
      by (simp add: lower_char_def same_letter_def letter_pairs_def Let_def char_of_eq_iff
          take_bit_eq_mod) arith
  next
    case 6 show ?thesis unfolding c 6 using n
      by (simp add: lower_char_def same_letter_def letter_pairs_def Let_def char_of_eq_iff
          take_bit_eq_mod) arith
  next
    case 7 show ?thesis unfolding c 7 using n
      by (simp add: lower_char_def same_letter_def letter_pairs_def Let_def char_of_eq_iff
          take_bit_eq_mod) arith
  next
    case 8 show ?thesis unfolding c 8 using n
      by (simp add: lower_char_def same_letter_def letter_pairs_def Let_def char_of_eq_iff
          take_bit_eq_mod) arith
  qed
qed

lemma lower_eq_same_letters:
  assumes "set w \<subseteq> set ''sucempty''"
  shows "(lower v = w) = equals_ci v w"
  using assms
proof (induction w arbitrary: v)
  case Nil
  show ?case by (simp add: lower_def equals_ci_def)
next
  case (Cons d w)
  have d: "\<And>c. (lower_char c = d) = same_letter c d"
    using Cons.prems by (intro lower_char_same_letter) auto
  have rest: "\<And>u. (lower u = w) = equals_ci u w"
    using Cons.IH Cons.prems by simp
  show ?case
  proof (cases v)
    case Nil
    then show ?thesis by (simp add: lower_def equals_ci_def)
  next
    case (Cons c u)
    with d[of c] rest[of u] show ?thesis by (simp add: lower_def equals_ci_def)
  qed
qed

lemma lower_is_success: "(lower v = ''success'') = equals_ci v ''success''"
  by (rule lower_eq_same_letters) simp

lemma lower_is_empty: "(lower v = ''empty'') = equals_ci v ''empty''"
  by (rule lower_eq_same_letters) simp

lemma max_index_bounds:
  "max_index r < n \<Longrightarrow> order_status_col r < n \<and> setup_admin_col r < n
     \<and> activation_url_col r < n \<and> status_col r < n \<and> password_col r < n"
  by (simp add: max_index_def)

lemma keep_row_matches: "keep_row r row = Inr (matches r row)"
proof (cases "max_index r < length row")
  case False
  then show ?thesis by (simp add: keep_row_def matches_def)
next
  case True
  from max_index_bounds[OF True] True show ?thesis
    by (simp add: keep_row_def matches_def getitem_def lower_is_success lower_is_empty
        strip_blank)
qed

lemma filter_rows_matches: "filter_rows r rows = Inr (filter (matches r) rows)"
  by (induction rows) (simp_all add: keep_row_matches)

lemma read_google_sheet_rows:
  "read_google_sheet (Inr (header # rows)) =
     map_option (\<lambda>r. (header, filter (matches r) rows)) (resolve_roles header)"
  by (simp add: read_google_sheet_def filter_rows_matches split: option.splits)

text \<open>
  C3. For every resolved role mapping and every row, the comprehension's condition never
  raises and accepts the row exactly when the row is longer than the largest of the five
  column indices, the order status and the setup status equal \<^verbatim>\<open>success\<close>
  case-insensitively, the activation URL is not empty after trimming, and the current
  status is empty after trimming or equals \<^verbatim>\<open>empty\<close> case-insensitively; so a row
  that is too short is rejected, not an error. The rows \<^verbatim>\<open>read_google_sheet\<close> returns
  are exactly the rows of the sheet that satisfy this.
\<close>

theorem filter_accepts_iff_all_four:
  "keep_row r row = Inr (matches r row)
   \<and> filter_rows r rows = Inr (filter (matches r) rows)
   \<and> read_google_sheet (Inr (header # rows)) =
       map_option (\<lambda>r. (header, filter (matches r) rows)) (resolve_roles header)"
  by (simp add: keep_row_matches filter_rows_matches read_google_sheet_rows)
theorem filter_accepts_iff_all_four_witness:
  "keep_row spec_roles spec_row = Inr True
   \<and> keep_row spec_roles (butlast spec_row) = Inr False
   \<and> keep_row spec_roles capitals_row = Inr True
   \<and> keep_row spec_roles empty_word_row = Inr True
   \<and> keep_row spec_roles blank_url_row = Inr False
   \<and> keep_row spec_roles padded_status_row = Inr False
   \<and> keep_row spec_roles misspelt_row = Inr False
   \<and> read_google_sheet (Inr two_row_sheet) = Some (spec_header, [spec_row])"
proof -
  have a: "matches spec_roles spec_row" by code_simp
  have b: "\<not> matches spec_roles (butlast spec_row)" by code_simp
  have c: "resolve_roles spec_header = Some spec_roles" by code_simp
  have d: "filter (matches spec_roles) [done_row, spec_row] = [spec_row]" by code_simp
  have e: "matches spec_roles capitals_row" by code_simp
  have f: "matches spec_roles empty_word_row" by code_simp
  have g: "\<not> matches spec_roles blank_url_row" by code_simp
  have h: "\<not> matches spec_roles padded_status_row" by code_simp
  have i: "\<not> matches spec_roles misspelt_row" by code_simp
  from filter_accepts_iff_all_four[of spec_roles spec_row "[done_row, spec_row]" spec_header]
    filter_accepts_iff_all_four[of spec_roles "butlast spec_row" "[]" spec_header]
    filter_accepts_iff_all_four[of spec_roles capitals_row "[]" spec_header]
    filter_accepts_iff_all_four[of spec_roles empty_word_row "[]" spec_header]
    filter_accepts_iff_all_four[of spec_roles blank_url_row "[]" spec_header]
    filter_accepts_iff_all_four[of spec_roles padded_status_row "[]" spec_header]
    filter_accepts_iff_all_four[of spec_roles misspelt_row "[]" spec_header]
    a b c d e f g h i
  show ?thesis by (simp add: two_row_sheet_def)
qed

section \<open>Two resolutions of the header\<close>

text \<open>
  C6. On the header \<open>status_header\<close> the up-front resolution accepts the header and
  takes column 4 for the password, while the extractor takes column 5, the column the
  up-front resolution took for the status. The row \<open>status_row\<close> passes the filter, and
  the value extracted as its password is the content of its status column.
\<close>

theorem extractor_resolves_other_password_column:
  "resolve_roles status_header = Some \<lparr>order_status_col = 1, setup_admin_col = 2,
      activation_url_col = 3, status_col = 5, password_col = 4\<rparr>
   \<and> extract_indices status_header = (Some 5, Some 3)
   \<and> read_google_sheet (Inr [status_header, status_row]) = Some (status_header, [status_row])
   \<and> extract_password_and_url status_row status_header = Some (''empty'', ''https://x/y'')"
  by code_simp

section \<open>The row index of the write-back\<close>

text \<open>
  C2. In \<open>two_row_sheet\<close> the qualifying record is the second data row (row 3 of the
  spreadsheet, whose row 1 is the header). The tuple prepared for it carries the row
  index 1, its position among the filtered rows.
\<close>

theorem row_index_counts_filtered_rows:
  "two_row_sheet ! 2 = spec_row
   \<and> read_google_sheet (Inr two_row_sheet) = Some (spec_header, [spec_row])
   \<and> map row_index (domain_data_list spec_header [spec_row]) = [1]"
  by code_simp

section \<open>Rules for the predicates on programs\<close>

lemma appendableD: "appendable P \<Longrightarrow> P a \<Longrightarrow> P b \<Longrightarrow> P (a @ b)"
  by (simp add: appendable_def)

lemma appendable_Nil: "appendable P \<Longrightarrow> P []"
  by (simp add: appendable_def)

lemma admits_appendable: "admits P \<Longrightarrow> appendable P"
  by (simp add: admits_def)

lemma admits_plain: "admits P \<Longrightarrow> plain e \<Longrightarrow> P [e]"
  by (simp add: admits_def)

lemma admits_Nil: "admits P \<Longrightarrow> P []"
  by (simp add: admits_def appendable_def)

lemma steady_emits: "steady P m \<Longrightarrow> emits P m"
  by (simp add: steady_def emits_def)

lemma steadyD:
  assumes "steady P m" and "m s = (r, s')"
  shows "driver s' = driver s \<and> (\<exists>es. trace s' = trace s @ es \<and> P es)"
proof -
  from assms(1) have "driver (snd (m s)) = driver s \<and> (\<exists>es. trace (snd (m s)) = trace s @ es \<and> P es)"
    unfolding steady_def by blast
  with assms(2) show ?thesis by simp
qed

lemma emitsD:
  assumes "emits P m" and "m s = (r, s')"
  shows "\<exists>es. trace s' = trace s @ es \<and> P es"
proof -
  from assms(1) have "\<exists>es. trace (snd (m s)) = trace s @ es \<and> P es"
    unfolding emits_def by blast
  with assms(2) show ?thesis by simp
qed

lemma steadyI:
  assumes "\<And>s r s'. m s = (r, s') \<Longrightarrow> driver s' = driver s \<and> (\<exists>es. trace s' = trace s @ es \<and> P es)"
  shows "steady P m"
  unfolding steady_def
proof
  fix s
  obtain r s' where eq: "m s = (r, s')" by (cases "m s")
  from assms[OF eq] eq
  show "driver (snd (m s)) = driver s \<and> (\<exists>es. trace (snd (m s)) = trace s @ es \<and> P es)"
    by simp
qed

lemma emitsI:
  assumes "\<And>s r s'. m s = (r, s') \<Longrightarrow> \<exists>es. trace s' = trace s @ es \<and> P es"
  shows "emits P m"
  unfolding emits_def
proof
  fix s
  obtain r s' where eq: "m s = (r, s')" by (cases "m s")
  from assms[OF eq] eq
  show "\<exists>es. trace (snd (m s)) = trace s @ es \<and> P es"
    by simp
qed

lemma steady_ret: "P [] \<Longrightarrow> steady P (ret v)"
  by (simp add: steady_def ret_def)

lemma steady_emit: "P [e] \<Longrightarrow> steady P (emit e)"
  by (simp add: steady_def emit_def)

lemma steady_print: "P [Print m] \<Longrightarrow> steady P (print m)"
  by (simp add: print_def steady_emit)

lemma steady_perform: "(\<And>x. P [Call c x]) \<Longrightarrow> steady P (perform c r)"
  by (simp add: steady_def perform_def)

lemma steady_call_unit: "(\<And>x. P [Call c x]) \<Longrightarrow> steady P (call_unit w c)"
  by (simp add: steady_def call_unit_def perform_def)

lemma steady_call_title: "(\<And>x. P [Call Title x]) \<Longrightarrow> steady P (call_title w)"
  by (simp add: steady_def call_title_def perform_def)

lemma steady_call_wait: "(\<And>x. P [Call c x]) \<Longrightarrow> steady P (call_wait w c)"
  by (simp add: steady_def call_wait_def perform_def)

lemma steady_call_find: "(\<And>x. P [Call c x]) \<Longrightarrow> steady P (call_find w c)"
  by (simp add: steady_def call_find_def perform_def)

lemma steady_sleep: "(\<And>x. P [Call (Sleep n) x]) \<Longrightarrow> steady P (sleep n)"
  by (simp add: sleep_def steady_perform)

lemma steady_bnd:
  assumes ap: "appendable P" and m: "steady P m" and f: "\<And>v. steady P (f v)"
  shows "steady P (bnd m f)"
proof (rule steadyI)
  fix s r s'
  assume run: "bnd m f s = (r, s')"
  obtain r1 s1 where m1: "m s = (r1, s1)" by (cases "m s")
  from steadyD[OF m m1] obtain es1 where
    d1: "driver s1 = driver s" and t1: "trace s1 = trace s @ es1" and p1: "P es1" by blast
  show "driver s' = driver s \<and> (\<exists>es. trace s' = trace s @ es \<and> P es)"
  proof (cases r1)
    case (Inl e)
    with run m1 have "s' = s1" by (simp add: bnd_def)
    with d1 t1 p1 show ?thesis by blast
  next
    case (Inr v)
    with run m1 have "f v s1 = (r, s')" by (simp add: bnd_def)
    from steadyD[OF f this] obtain es2 where
      "driver s' = driver s1" and "trace s' = trace s1 @ es2" and "P es2" by blast
    with d1 t1 p1 appendableD[OF ap] show ?thesis by auto
  qed
qed

lemma steady_seq: "appendable P \<Longrightarrow> steady P m \<Longrightarrow> steady P n \<Longrightarrow> steady P (seq m n)"
  by (simp add: seq_def steady_bnd)

lemma steady_try_except:
  assumes ap: "appendable P" and m: "steady P m" and h: "\<And>e. steady P (h e)"
  shows "steady P (try_except m h)"
proof (rule steadyI)
  fix s r s'
  assume run: "try_except m h s = (r, s')"
  obtain r1 s1 where m1: "m s = (r1, s1)" by (cases "m s")
  from steadyD[OF m m1] obtain es1 where
    d1: "driver s1 = driver s" and t1: "trace s1 = trace s @ es1" and p1: "P es1" by blast
  show "driver s' = driver s \<and> (\<exists>es. trace s' = trace s @ es \<and> P es)"
  proof (cases r1)
    case (Inr v)
    with run m1 have "s' = s1" by (simp add: try_except_def)
    with d1 t1 p1 show ?thesis by blast
  next
    case (Inl e)
    with run m1 have "h e s1 = (r, s')" by (simp add: try_except_def)
    from steadyD[OF h this] obtain es2 where
      "driver s' = driver s1" and "trace s' = trace s1 @ es2" and "P es2" by blast
    with d1 t1 p1 appendableD[OF ap] show ?thesis by auto
  qed
qed

lemma steady_try_except_timeout:
  assumes ap: "appendable P" and m: "steady P m" and h: "steady P h"
  shows "steady P (try_except_timeout m h)"
proof (rule steadyI)
  fix s r s'
  assume run: "try_except_timeout m h s = (r, s')"
  obtain r1 s1 where m1: "m s = (r1, s1)" by (cases "m s")
  from steadyD[OF m m1] obtain es1 where
    d1: "driver s1 = driver s" and t1: "trace s1 = trace s @ es1" and p1: "P es1" by blast
  show "driver s' = driver s \<and> (\<exists>es. trace s' = trace s @ es \<and> P es)"
  proof (cases "r1 = Inl TimeoutException")
    case False
    with run m1 have "s' = s1"
      by (auto simp: try_except_timeout_def split: sum.splits exn.splits)
    with d1 t1 p1 show ?thesis by blast
  next
    case True
    with run m1 have "h s1 = (r, s')" by (simp add: try_except_timeout_def)
    from steadyD[OF h this] obtain es2 where
      "driver s' = driver s1" and "trace s' = trace s1 @ es2" and "P es2" by blast
    with d1 t1 p1 appendableD[OF ap] show ?thesis by auto
  qed
qed

lemma steady_try_finally:
  assumes ap: "appendable P" and m: "steady P m" and f: "steady P fin"
  shows "steady P (try_finally m fin)"
proof (rule steadyI)
  fix s r s'
  assume run: "try_finally m fin s = (r, s')"
  obtain r1 s1 where m1: "m s = (r1, s1)" by (cases "m s")
  obtain r2 s2 where f2: "fin s1 = (r2, s2)" by (cases "fin s1")
  from steadyD[OF m m1] obtain es1 where
    d1: "driver s1 = driver s" and t1: "trace s1 = trace s @ es1" and p1: "P es1" by blast
  from steadyD[OF f f2] obtain es2 where
    d2: "driver s2 = driver s1" and t2: "trace s2 = trace s1 @ es2" and p2: "P es2" by blast
  from run m1 f2 have "s' = s2" by (auto simp: try_finally_def split: sum.splits)
  with d1 t1 p1 d2 t2 p2 appendableD[OF ap] show
    "driver s' = driver s \<and> (\<exists>es. trace s' = trace s @ es \<and> P es)" by auto
qed

lemma steady_if: "steady P a \<Longrightarrow> steady P b \<Longrightarrow> steady P (if c then a else b)"
  by simp

lemma emits_bnd:
  assumes ap: "appendable P" and m: "emits P m" and f: "\<And>v. emits P (f v)"
  shows "emits P (bnd m f)"
proof (rule emitsI)
  fix s r s'
  assume run: "bnd m f s = (r, s')"
  obtain r1 s1 where m1: "m s = (r1, s1)" by (cases "m s")
  from emitsD[OF m m1] obtain es1 where
    t1: "trace s1 = trace s @ es1" and p1: "P es1" by blast
  show "\<exists>es. trace s' = trace s @ es \<and> P es"
  proof (cases r1)
    case (Inl e)
    with run m1 have "s' = s1" by (simp add: bnd_def)
    with t1 p1 show ?thesis by blast
  next
    case (Inr v)
    with run m1 have "f v s1 = (r, s')" by (simp add: bnd_def)
    from emitsD[OF f this] obtain es2 where
      "trace s' = trace s1 @ es2" and "P es2" by blast
    with t1 p1 appendableD[OF ap] show ?thesis by auto
  qed
qed

lemma emits_seq: "appendable P \<Longrightarrow> emits P m \<Longrightarrow> emits P n \<Longrightarrow> emits P (seq m n)"
  by (simp add: seq_def emits_bnd)

lemma emits_try_except:
  assumes ap: "appendable P" and m: "emits P m" and h: "\<And>e. emits P (h e)"
  shows "emits P (try_except m h)"
proof (rule emitsI)
  fix s r s'
  assume run: "try_except m h s = (r, s')"
  obtain r1 s1 where m1: "m s = (r1, s1)" by (cases "m s")
  from emitsD[OF m m1] obtain es1 where
    t1: "trace s1 = trace s @ es1" and p1: "P es1" by blast
  show "\<exists>es. trace s' = trace s @ es \<and> P es"
  proof (cases r1)
    case (Inr v)
    with run m1 have "s' = s1" by (simp add: try_except_def)
    with t1 p1 show ?thesis by blast
  next
    case (Inl e)
    with run m1 have "h e s1 = (r, s')" by (simp add: try_except_def)
    from emitsD[OF h this] obtain es2 where
      "trace s' = trace s1 @ es2" and "P es2" by blast
    with t1 p1 appendableD[OF ap] show ?thesis by auto
  qed
qed

lemma emits_try_finally:
  assumes ap: "appendable P" and m: "emits P m" and f: "emits P fin"
  shows "emits P (try_finally m fin)"
proof (rule emitsI)
  fix s r s'
  assume run: "try_finally m fin s = (r, s')"
  obtain r1 s1 where m1: "m s = (r1, s1)" by (cases "m s")
  obtain r2 s2 where f2: "fin s1 = (r2, s2)" by (cases "fin s1")
  from emitsD[OF m m1] obtain es1 where
    t1: "trace s1 = trace s @ es1" and p1: "P es1" by blast
  from emitsD[OF f f2] obtain es2 where
    t2: "trace s2 = trace s1 @ es2" and p2: "P es2" by blast
  from run m1 f2 have "s' = s2" by (auto simp: try_finally_def split: sum.splits)
  with t1 p1 t2 p2 appendableD[OF ap] show
    "\<exists>es. trace s' = trace s @ es \<and> P es" by auto
qed

section \<open>The write-back in one equation\<close>

lemma update_status_in_sheet_run:
  "update_status_in_sheet w i st d s =
     (let c = Post i st (if truthy d then d else None);
          r = post_result w (trace s @ [Acquire]) c
      in (Inr (),
          s\<lparr>trace := trace s @
             [Acquire,
              Call c (case r of Inl e \<Rightarrow> Some e | Inr code \<Rightarrow> None),
              Print (case r of
                       Inl e \<Rightarrow> StatusError e
                     | Inr code \<Rightarrow>
                         if code = 200 then StatusUpdated i (if truthy d then d else None) st
                         else StatusFailed code),
              Release]\<rparr>))"
  by (simp add: update_status_in_sheet_def seq_def bnd_def emit_def try_finally_def
      try_except_def call_post_def perform_def print_def Let_def split: sum.splits)

lemma no_raise_update_status: "no_raise (update_status_in_sheet w i st d)"
  by (simp add: no_raise_def update_status_in_sheet_run Let_def)

lemma steady_update_status:
  assumes "admits P"
  shows "steady P (update_status_in_sheet w i st d)"
  using assms by (simp add: steady_def update_status_in_sheet_run Let_def admits_def)

section \<open>The steps after the session is open\<close>

lemma steady_click_confirm:
  assumes ad: "admits P"
  shows "steady P (click_confirm w dname sels)"
proof (induction sels)
  case Nil
  show ?case by (simp add: steady_ret admits_Nil[OF ad])
next
  case (Cons selector rest)
  note ap = admits_appendable[OF ad]
  have body: "steady P (bnd (call_wait w (WaitClickable 5 CSS_SELECTOR selector))
          (\<lambda>confirm_btn. seq (call_unit w (Click confirm_btn))
               (seq (print (UnderstandClicked dname)) (ret True))))"
    by (intro steady_bnd[OF ap] steady_seq[OF ap] steady_call_wait steady_call_unit
          steady_print steady_ret admits_Nil[OF ad] admits_plain[OF ad])
       (simp_all add: plain_def)
  from steady_try_except_timeout[OF ap body Cons.IH] show ?case by simp
qed

lemma steady_click_change:
  assumes ad: "admits P"
  shows "steady P (click_change w sels)"
proof (induction sels)
  case Nil
  show ?case by (simp add: steady_ret admits_Nil[OF ad])
next
  case (Cons selector rest)
  note ap = admits_appendable[OF ad]
  have body: "steady P (bnd (if contains '':contains'' selector
             then call_wait w (WaitClickable 3 XPATH change_xpath)
             else call_wait w (WaitClickable 3 CSS_SELECTOR selector))
          (\<lambda>change_btn. seq (call_unit w (Click change_btn))
               (seq (print ChangeClicked) (ret True))))"
    by (intro steady_bnd[OF ap] steady_seq[OF ap] steady_if steady_call_wait steady_call_unit
          steady_print steady_ret admits_Nil[OF ad] admits_plain[OF ad])
       (simp_all add: plain_def)
  from steady_try_except_timeout[OF ap body Cons.IH] show ?case by simp
qed

lemma steady_find_password_inputs:
  assumes ad: "admits P"
  shows "steady P (find_password_inputs w sels acc)"
proof (induction sels arbitrary: acc)
  case Nil
  show ?case by (simp add: steady_ret admits_Nil[OF ad])
next
  case (Cons selector rest)
  note ap = admits_appendable[OF ad]
  have one: "steady P (try_except
            (bnd (call_find w (FindElements CSS_SELECTOR selector))
               (\<lambda>inputs. ret (acc @ inputs)))
            (\<lambda>e. ret acc))"
    by (intro steady_try_except[OF ap] steady_bnd[OF ap] steady_call_find steady_ret
          admits_Nil[OF ad] admits_plain[OF ad])
       (simp_all add: plain_def)
  from steady_bnd[OF ap one Cons.IH] show ?case by simp
qed

lemma steady_fill_first_two:
  assumes ad: "admits P"
  shows "steady P (fill_first_two w pw inputs)"
  unfolding fill_first_two_def
  by (intro steady_seq[OF admits_appendable[OF ad]] steady_call_unit steady_print
        admits_plain[OF ad])
     (simp_all add: plain_def)

lemma steady_change_step:
  assumes ad: "admits P"
  shows "steady P (change_step w dname row_ix)"
  unfolding change_step_def
  by (intro steady_bnd[OF admits_appendable[OF ad]] steady_seq[OF admits_appendable[OF ad]]
        steady_if steady_click_change[OF ad] steady_update_status[OF ad] steady_print steady_ret
        admits_Nil[OF ad] admits_plain[OF ad])
     (simp_all add: plain_def)

lemma steady_password_step:
  assumes ad: "admits P"
  shows "steady P (password_step w pw dname row_ix)"
  unfolding password_step_def
  by (intro steady_bnd[OF admits_appendable[OF ad]] steady_seq[OF admits_appendable[OF ad]]
        steady_if steady_find_password_inputs[OF ad] steady_fill_first_two[OF ad]
        steady_change_step[OF ad] steady_print steady_ret
        admits_Nil[OF ad] admits_plain[OF ad])
     (simp_all add: plain_def)

lemma steady_confirm_step:
  assumes ad: "admits P"
  shows "steady P (confirm_step w pw dname row_ix)"
  unfolding confirm_step_def
  by (intro steady_bnd[OF admits_appendable[OF ad]] steady_seq[OF admits_appendable[OF ad]]
        steady_if steady_click_confirm[OF ad] steady_password_step[OF ad] steady_sleep
        steady_call_title steady_print steady_ret
        admits_Nil[OF ad] admits_plain[OF ad])
     (simp_all add: plain_def)

lemma steady_session_steps:
  assumes ad: "admits P"
  shows "steady P (session_steps w url pw dname row_ix)"
  unfolding session_steps_def
  by (intro steady_bnd[OF admits_appendable[OF ad]] steady_seq[OF admits_appendable[OF ad]]
        steady_confirm_step[OF ad] steady_sleep
        steady_call_title steady_call_unit steady_print
        admits_plain[OF ad])
     (simp_all add: plain_def)

lemma steady_except_block:
  assumes ad: "admits P"
  shows "steady P (except_block w dname row_ix e)"
  unfolding except_block_def
  by (intro steady_seq[OF admits_appendable[OF ad]] steady_update_status[OF ad]
        steady_print steady_ret admits_Nil[OF ad] admits_plain[OF ad])
     (simp_all add: plain_def)

lemma except_block_result: "fst (except_block w dname row_ix e s) = Inr False"
  by (simp add: except_block_def seq_def bnd_def print_def emit_def ret_def
      update_status_in_sheet_run Let_def)

section \<open>The session is closed on every exit\<close>

lemma admits_quiet: "admits quiet"
  by (simp add: admits_def appendable_def quiet_def plain_def)

lemma quiet_no_open: "quiet es \<Longrightarrow> filter is_open es = []"
proof (induction es)
  case Nil
  show ?case by simp
next
  case (Cons e es)
  then have "\<not> is_new_driver e" and "quiet es" by (simp_all add: quiet_def)
  then have "\<not> is_open e" by (cases e rule: is_open.cases) simp_all
  with Cons.IH \<open>quiet es\<close> show ?case by simp
qed

lemma quiet_no_quit: "quiet es \<Longrightarrow> filter is_quit es = []"
  by (induction es) (simp_all add: quiet_def)

lemma finally_block_closed:
  assumes "driver s1"
  shows "\<exists>s2 r m. finally_block w dname s1 = (Inr (), s2)
     \<and> trace s2 = trace s1 @ [Call Quit r, Print m]"
proof (cases "unit_result w (trace s1) Quit")
  case None
  with assms have "finally_block w dname s1 =
      (Inr (), s1\<lparr>trace := trace s1 @ [Call Quit None, Print (BrowserClosed dname)]\<rparr>)"
    by (simp add: finally_block_def try_except_def seq_def bnd_def call_unit_def perform_def
        print_def emit_def)
  then show ?thesis by simp
next
  case (Some e)
  with assms have "finally_block w dname s1 =
      (Inr (), s1\<lparr>trace := trace s1 @ [Call Quit (Some e), Print (ErrorClosing dname e)]\<rparr>)"
    by (simp add: finally_block_def try_except_def seq_def bnd_def call_unit_def perform_def
        print_def emit_def)
  then show ?thesis by simp
qed

lemma finally_block_skipped: "\<not> driver s1 \<Longrightarrow> finally_block w dname s1 = (Inr (), s1)"
  by (simp add: finally_block_def)

lemma no_raise_finally_block: "no_raise (finally_block w dname)"
  unfolding no_raise_def
proof
  fix s
  show "\<exists>v s'. finally_block w dname s = (Inr v, s')"
  proof (cases "driver s")
    case True
    from finally_block_closed[OF True, of w dname] show ?thesis by blast
  next
    case False
    then show ?thesis by (simp add: finally_block_skipped)
  qed
qed

lemma except_block_run:
  assumes ad: "admits P"
  shows "\<exists>s' es. except_block w dname row_ix e s = (Inr False, s')
            \<and> driver s' = driver s \<and> trace s' = trace s @ es \<and> P es"
proof -
  obtain r s' where h: "except_block w dname row_ix e s = (r, s')"
    by (cases "except_block w dname row_ix e s")
  from except_block_result[of w dname row_ix e s] h have "r = Inr False" by simp
  with steadyD[OF steady_except_block[OF ad] h] h show ?thesis by blast
qed

lemma guardedI:
  "X = (Inr b, s1) \<Longrightarrow> trace s1 = trace s0 @ es \<Longrightarrow> filter is_quit es = []
   \<Longrightarrow> length (filter is_open es) = (if driver s1 then 1 else 0)
   \<Longrightarrow> \<exists>b s1 es. X = (Inr b, s1) \<and> trace s1 = trace s0 @ es \<and> filter is_quit es = []
         \<and> length (filter is_open es) = (if driver s1 then 1 else 0)"
  by blast

lemma guarded_body_run:
  assumes nd: "\<not> driver s0"
  shows "\<exists>b s1 es. try_except (try_body w url pw dname row_ix) (except_block w dname row_ix) s0
           = (Inr b, s1)
         \<and> trace s1 = trace s0 @ es \<and> filter is_quit es = []
         \<and> length (filter is_open es) = (if driver s1 then 1 else 0)"
proof (cases "url = [] \<or> pw = [] \<or> dname = []")
  case True
  define s1 where "s1 = s0\<lparr>trace := trace s0 @ [Print (InvalidParameters url (mask pw) dname)]\<rparr>"
  from True have "try_body w url pw dname row_ix s0 = (Inr False, s1)"
    by (simp add: try_body_def seq_def bnd_def print_def emit_def ret_def s1_def)
  then have "try_except (try_body w url pw dname row_ix) (except_block w dname row_ix) s0
      = (Inr False, s1)"
    by (simp add: try_except_def)
  then show ?thesis
  proof (rule guardedI)
    show "trace s1 = trace s0 @ [Print (InvalidParameters url (mask pw) dname)]"
      by (simp add: s1_def)
    show "filter is_quit [Print (InvalidParameters url (mask pw) dname)] = []" by simp
    show "length (filter is_open [Print (InvalidParameters url (mask pw) dname)])
        = (if driver s1 then 1 else 0)"
      using nd by (simp add: s1_def)
  qed
next
  case False
  define pre where "pre = [Print (Processing dname), Print (AdminPassword pw), Print (Url url)]"
  define s3 where "s3 = s0\<lparr>trace := trace s0 @ pre\<rparr>"
  have body: "try_body w url pw dname row_ix s0
      = seq (new_driver w) (session_steps w url pw dname row_ix) s3"
    using False by (simp add: try_body_def seq_def bnd_def print_def emit_def s3_def pre_def)
  have pre_quit: "filter is_quit pre = []" and pre_open: "filter is_open pre = []"
    by (simp_all add: pre_def)
  note ad = admits_quiet
  show ?thesis
  proof (cases "unit_result w (trace s3) NewDriver")
    case (Some e)
    define s4 where "s4 = s3\<lparr>trace := trace s3 @ [Call NewDriver (Some e)]\<rparr>"
    have b4: "try_body w url pw dname row_ix s0 = (Inl e, s4)"
      using Some by (simp add: body seq_def bnd_def new_driver_def s4_def)
    from except_block_run[OF ad, of w dname row_ix e s4] obtain s5 es2 where
      h: "except_block w dname row_ix e s4 = (Inr False, s5)"
      and d5: "driver s5 = driver s4" and t5: "trace s5 = trace s4 @ es2" and q: "quiet es2"
      by blast
    have "try_except (try_body w url pw dname row_ix) (except_block w dname row_ix) s0
        = (Inr False, s5)"
      using b4 h by (simp add: try_except_def)
    then show ?thesis
    proof (rule guardedI)
      show "trace s5 = trace s0 @ (pre @ [Call NewDriver (Some e)] @ es2)"
        using t5 by (simp add: s4_def s3_def)
      show "filter is_quit (pre @ [Call NewDriver (Some e)] @ es2) = []"
        using pre_quit quiet_no_quit[OF q] by simp
      have "\<not> driver s5" using d5 nd by (simp add: s4_def s3_def)
      then show "length (filter is_open (pre @ [Call NewDriver (Some e)] @ es2))
          = (if driver s5 then 1 else 0)"
        using pre_open quiet_no_open[OF q] by simp
    qed
  next
    case None
    define s4 where "s4 = s3\<lparr>trace := trace s3 @ [Call NewDriver None], driver := True\<rparr>"
    obtain r5 s5 where run: "session_steps w url pw dname row_ix s4 = (r5, s5)"
      by (cases "session_steps w url pw dname row_ix s4")
    have b5: "try_body w url pw dname row_ix s0 = (r5, s5)"
      using None run by (simp add: body seq_def bnd_def new_driver_def s4_def)
    from steadyD[OF steady_session_steps[OF ad] run] obtain es2 where
      d5: "driver s5 = driver s4" and t5: "trace s5 = trace s4 @ es2" and q2: "quiet es2" by blast
    have d5': "driver s5" using d5 by (simp add: s4_def)
    have t5': "trace s5 = trace s0 @ (pre @ [Call NewDriver None] @ es2)"
      using t5 by (simp add: s4_def s3_def)
    have quit5: "filter is_quit (pre @ [Call NewDriver None] @ es2) = []"
      using pre_quit quiet_no_quit[OF q2] by simp
    have open5: "length (filter is_open (pre @ [Call NewDriver None] @ es2)) = 1"
      using pre_open quiet_no_open[OF q2] by simp
    show ?thesis
    proof (cases r5)
      case (Inr b)
      then have "try_except (try_body w url pw dname row_ix) (except_block w dname row_ix) s0
          = (Inr b, s5)"
        using b5 by (simp add: try_except_def)
      then show ?thesis
      proof (rule guardedI)
        show "trace s5 = trace s0 @ (pre @ [Call NewDriver None] @ es2)" by (rule t5')
        show "filter is_quit (pre @ [Call NewDriver None] @ es2) = []" by (rule quit5)
        show "length (filter is_open (pre @ [Call NewDriver None] @ es2))
            = (if driver s5 then 1 else 0)"
          using open5 d5' by simp
      qed
    next
      case (Inl e)
      from except_block_run[OF ad, of w dname row_ix e s5] obtain s6 es3 where
        h: "except_block w dname row_ix e s5 = (Inr False, s6)"
        and d6: "driver s6 = driver s5" and t6: "trace s6 = trace s5 @ es3" and q3: "quiet es3"
        by blast
      have "try_except (try_body w url pw dname row_ix) (except_block w dname row_ix) s0
          = (Inr False, s6)"
        using b5 Inl h by (simp add: try_except_def)
      then show ?thesis
      proof (rule guardedI)
        show "trace s6 = trace s0 @ ((pre @ [Call NewDriver None] @ es2) @ es3)"
          using t6 t5' by simp
        show "filter is_quit ((pre @ [Call NewDriver None] @ es2) @ es3) = []"
          using quit5 quiet_no_quit[OF q3] by simp
        show "length (filter is_open ((pre @ [Call NewDriver None] @ es2) @ es3))
            = (if driver s6 then 1 else 0)"
          using open5 quiet_no_open[OF q3] d6 d5' by simp
      qed
    qed
  qed
qed

lemma guarded_body_result:
  "fst (try_except (try_body w url pw dname row_ix) (except_block w dname row_ix) s0) =
     Inr (case fst (try_body w url pw dname row_ix s0) of Inl e \<Rightarrow> False | Inr v \<Rightarrow> v)"
proof -
  obtain r s1 where b: "try_body w url pw dname row_ix s0 = (r, s1)"
    by (cases "try_body w url pw dname row_ix s0")
  show ?thesis
  proof (cases r)
    case (Inl e)
    with b except_block_result[of w dname row_ix e s1] show ?thesis
      by (simp add: try_except_def)
  next
    case (Inr v)
    with b show ?thesis by (simp add: try_except_def)
  qed
qed

text \<open>
  C5. For every page, whatever each call on it returns or raises, and every input,
  \<^verbatim>\<open>process_password_change\<close> returns a value: no exception leaves it. The value is
  \<^verbatim>\<open>False\<close> whenever the \<^verbatim>\<open>try\<close> body (lines 147 to 265) raised, and the value the
  body returned otherwise. Among the events of the run, either no session was opened and
  none was closed, or exactly one session was opened and \<^verbatim>\<open>driver.quit()\<close> was called
  once, as the last call of the run, followed only by the line that reports it.
\<close>

theorem session_closed_on_every_exit:
  "\<exists>s' es. process_password_change w url pw dname row_ix s =
       (Inr (case fst (try_body w url pw dname row_ix (s\<lparr>driver := False\<rparr>)) of
               Inl e \<Rightarrow> False | Inr v \<Rightarrow> v), s')
     \<and> trace s' = trace s @ es
     \<and> ((filter is_open es = [] \<and> filter is_quit es = [])
        \<or> (\<exists>pre r m. es = pre @ [Call Quit r, Print m]
              \<and> length (filter is_open pre) = 1 \<and> filter is_quit pre = []))"
proof -
  define s0 where "s0 = s\<lparr>driver := False\<rparr>"
  define res where "res = (case fst (try_body w url pw dname row_ix s0) of
               Inl e \<Rightarrow> False | Inr v \<Rightarrow> v)"
  have nd: "\<not> driver s0" by (simp add: s0_def)
  from guarded_body_run[OF nd, of w url pw dname row_ix] obtain b s1 es where
    run0: "try_except (try_body w url pw dname row_ix) (except_block w dname row_ix) s0 = (Inr b, s1)"
    and t1: "trace s1 = trace s0 @ es" and nq: "filter is_quit es = []"
    and op: "length (filter is_open es) = (if driver s1 then 1 else 0)" by blast
  from guarded_body_result[of w url pw dname row_ix s0] run0 have "b = res"
    by (simp add: res_def)
  with run0 have run:
    "try_except (try_body w url pw dname row_ix) (except_block w dname row_ix) s0 = (Inr res, s1)"
    by simp
  have t1': "trace s1 = trace s @ es" using t1 by (simp add: s0_def)
  have goal: "\<exists>s' es. process_password_change w url pw dname row_ix s = (Inr res, s')
     \<and> trace s' = trace s @ es
     \<and> ((filter is_open es = [] \<and> filter is_quit es = [])
        \<or> (\<exists>pre r m. es = pre @ [Call Quit r, Print m]
              \<and> length (filter is_open pre) = 1 \<and> filter is_quit pre = []))"
  proof (cases "driver s1")
    case False
    then have "finally_block w dname s1 = (Inr (), s1)" by (rule finally_block_skipped)
    with run have r: "process_password_change w url pw dname row_ix s = (Inr res, s1)"
      by (simp add: process_password_change_def try_finally_def s0_def)
    from False op have "filter is_open es = []" by simp
    with r t1' nq show ?thesis by blast
  next
    case True
    from finally_block_closed[OF True, of w dname] obtain s2 r m where
      fin: "finally_block w dname s1 = (Inr (), s2)"
      and t2: "trace s2 = trace s1 @ [Call Quit r, Print m]" by blast
    from run fin have r: "process_password_change w url pw dname row_ix s = (Inr res, s2)"
      by (simp add: process_password_change_def try_finally_def s0_def)
    from t2 t1' have t2': "trace s2 = trace s @ (es @ [Call Quit r, Print m])" by simp
    from True op have "length (filter is_open es) = 1" by simp
    with r t2' nq show ?thesis by blast
  qed
  then show ?thesis by (simp add: res_def s0_def)
qed

section \<open>The result does not depend on the transport\<close>

lemma call_unit_post: "call_unit (w\<lparr>post_result := p\<rparr>) c = call_unit w c"
  by (rule ext) (simp add: call_unit_def)

lemma call_title_post: "call_title (w\<lparr>post_result := p\<rparr>) = call_title w"
  by (rule ext) (simp add: call_title_def)

lemma call_wait_post: "call_wait (w\<lparr>post_result := p\<rparr>) c = call_wait w c"
  by (rule ext) (simp add: call_wait_def)

lemma call_find_post: "call_find (w\<lparr>post_result := p\<rparr>) c = call_find w c"
  by (rule ext) (simp add: call_find_def)

lemma new_driver_post: "new_driver (w\<lparr>post_result := p\<rparr>) = new_driver w"
  by (rule ext) (simp add: new_driver_def)

lemma finally_block_post: "finally_block (w\<lparr>post_result := p\<rparr>) dname = finally_block w dname"
  by (rule ext) (simp add: finally_block_def call_unit_post)

lemma click_confirm_post:
  "click_confirm (w\<lparr>post_result := p\<rparr>) dname sels = click_confirm w dname sels"
  by (induction sels) (simp_all add: call_unit_post call_wait_post)

lemma click_change_post: "click_change (w\<lparr>post_result := p\<rparr>) sels = click_change w sels"
  by (induction sels) (simp_all add: call_unit_post call_wait_post)

lemma find_password_inputs_post:
  "find_password_inputs (w\<lparr>post_result := p\<rparr>) sels acc = find_password_inputs w sels acc"
proof (induction sels arbitrary: acc)
  case Nil
  show ?case by simp
next
  case (Cons selector rest)
  have "find_password_inputs (w\<lparr>post_result := p\<rparr>) rest = find_password_inputs w rest"
    by (rule ext) (rule Cons.IH)
  then show ?case by (simp add: call_find_post)
qed

lemma fill_first_two_post:
  "fill_first_two (w\<lparr>post_result := p\<rparr>) pw inputs = fill_first_two w pw inputs"
  by (simp add: fill_first_two_def call_unit_post)

lemma same_result_refl: "same_result m m"
  by (simp add: same_result_def)

lemma same_result_bnd:
  assumes "\<And>v. same_result (f v) (g v)"
  shows "same_result (bnd m f) (bnd m g)"
  unfolding same_result_def
proof
  fix s
  obtain r s1 where m: "m s = (r, s1)" by (cases "m s")
  show "fst (bnd m f s) = fst (bnd m g s)"
  proof (cases r)
    case (Inl e)
    with m show ?thesis by (simp add: bnd_def)
  next
    case (Inr v)
    from assms[of v] have "fst (f v s1) = fst (g v s1)" by (simp add: same_result_def)
    with m Inr show ?thesis by (simp add: bnd_def)
  qed
qed

lemma same_result_seq: "same_result n n' \<Longrightarrow> same_result (seq m n) (seq m n')"
  by (simp add: seq_def same_result_bnd)

lemma same_result_if:
  "same_result a a' \<Longrightarrow> same_result b b' \<Longrightarrow> same_result (if c then a else b) (if c then a' else b')"
  by simp

lemma same_result_try_except:
  assumes m: "same_result m m'"
    and h: "\<And>e s. fst (h e s) = Inr c" and h': "\<And>e s. fst (h' e s) = Inr c"
  shows "same_result (try_except m h) (try_except m' h')"
  unfolding same_result_def
proof
  fix s
  obtain r s1 where a: "m s = (r, s1)" by (cases "m s")
  obtain r' s1' where b: "m' s = (r', s1')" by (cases "m' s")
  from m have "fst (m s) = fst (m' s)" by (simp add: same_result_def)
  with a b have eq: "r' = r" by simp
  show "fst (try_except m h s) = fst (try_except m' h' s)"
  proof (cases r)
    case (Inl e)
    with a b eq h[of e s1] h'[of e s1'] show ?thesis by (simp add: try_except_def)
  next
    case (Inr v)
    with a b eq show ?thesis by (simp add: try_except_def)
  qed
qed

lemma try_finally_result:
  assumes "no_raise fin"
  shows "fst (try_finally m fin s) = fst (m s)"
proof -
  obtain r s1 where a: "m s = (r, s1)" by (cases "m s")
  from assms obtain v s2 where "fin s1 = (Inr v, s2)" unfolding no_raise_def by blast
  with a show ?thesis by (simp add: try_finally_def)
qed

lemma reported_result:
  "same_result (seq (print c) (seq (update_status_in_sheet w' i st d) (ret True)))
               (seq (print c) (seq (update_status_in_sheet w i st d) (ret True)))"
  by (simp add: same_result_def seq_def bnd_def print_def emit_def ret_def
      update_status_in_sheet_run Let_def)

lemma change_step_post:
  "same_result (change_step (w\<lparr>post_result := p\<rparr>) dname row_ix) (change_step w dname row_ix)"
  unfolding change_step_def click_change_post
  by (intro same_result_bnd same_result_if same_result_refl reported_result)

lemma password_step_post:
  "same_result (password_step (w\<lparr>post_result := p\<rparr>) pw dname row_ix)
               (password_step w pw dname row_ix)"
  unfolding password_step_def find_password_inputs_post fill_first_two_post
  by (intro same_result_bnd same_result_if same_result_seq same_result_refl change_step_post)

lemma confirm_step_post:
  "same_result (confirm_step (w\<lparr>post_result := p\<rparr>) pw dname row_ix)
               (confirm_step w pw dname row_ix)"
  unfolding confirm_step_def click_confirm_post call_title_post
  by (intro same_result_bnd same_result_if same_result_seq same_result_refl password_step_post)

lemma session_steps_post:
  "same_result (session_steps (w\<lparr>post_result := p\<rparr>) url pw dname row_ix)
               (session_steps w url pw dname row_ix)"
  unfolding session_steps_def call_unit_post call_title_post
  by (intro same_result_bnd same_result_seq confirm_step_post)

lemma try_body_post:
  "same_result (try_body (w\<lparr>post_result := p\<rparr>) url pw dname row_ix)
               (try_body w url pw dname row_ix)"
  unfolding try_body_def new_driver_post
  by (intro same_result_if same_result_seq same_result_refl session_steps_post)

lemma process_password_change_post:
  "fst (process_password_change (w\<lparr>post_result := p\<rparr>) url pw dname row_ix s)
     = fst (process_password_change w url pw dname row_ix s)"
proof -
  have "same_result
      (try_except (try_body (w\<lparr>post_result := p\<rparr>) url pw dname row_ix)
         (except_block (w\<lparr>post_result := p\<rparr>) dname row_ix))
      (try_except (try_body w url pw dname row_ix) (except_block w dname row_ix))"
    by (rule same_result_try_except[OF try_body_post]) (rule except_block_result)+
  then show ?thesis
    by (simp add: process_password_change_def try_finally_result no_raise_finally_block
        same_result_def)
qed

lemma process_single_domain_post:
  "fst (process_single_domain (w\<lparr>post_result := p\<rparr>) d s) = fst (process_single_domain w d s)"
proof -
  have h: "\<And>e s. fst (seq (print (ErrorProcessing (domain_name d) e)) (ret False) s) = Inr False"
    by (simp add: seq_def bnd_def print_def emit_def ret_def)
  have ppc: "same_result
      (process_password_change (w\<lparr>post_result := p\<rparr>) (activation_url d) (admin_password d)
         (domain_name d) (row_index d))
      (process_password_change w (activation_url d) (admin_password d)
         (domain_name d) (row_index d))"
    by (simp add: same_result_def process_password_change_post)
  have tn: "thread_name (w\<lparr>post_result := p\<rparr>) = thread_name w"
    and ti: "thread_ident (w\<lparr>post_result := p\<rparr>) = thread_ident w"
    by simp_all
  have "same_result (process_single_domain (w\<lparr>post_result := p\<rparr>) d) (process_single_domain w d)"
    unfolding process_single_domain_def tn ti
    by (intro same_result_seq same_result_if same_result_refl
          same_result_try_except[OF ppc h h])
  then show ?thesis by (simp add: same_result_def)
qed

text \<open>
  C8. A status write-back makes one \<^verbatim>\<open>requests.post\<close> call between acquiring and
  releasing the lock and returns normally whatever the call does: when the call raises,
  the exception is printed; when the response is not 200, its status code is printed;
  there is no second call. What \<^verbatim>\<open>process_password_change\<close> returns, and so what the
  task contributes to the tally, is the same whatever the transport answers.
\<close>

theorem write_back_failure_is_only_logged:
  "(\<forall>e. post_result w (trace s @ [Acquire]) (Post i st (if truthy dn then dn else None)) = Inl e
      \<longrightarrow> update_status_in_sheet w i st dn s =
            (Inr (), s\<lparr>trace := trace s @ [Acquire,
               Call (Post i st (if truthy dn then dn else None)) (Some e),
               Print (StatusError e), Release]\<rparr>))
   \<and> (\<forall>code. post_result w (trace s @ [Acquire]) (Post i st (if truthy dn then dn else None)) = Inr code
      \<longrightarrow> code \<noteq> 200
      \<longrightarrow> update_status_in_sheet w i st dn s =
            (Inr (), s\<lparr>trace := trace s @ [Acquire,
               Call (Post i st (if truthy dn then dn else None)) None,
               Print (StatusFailed code), Release]\<rparr>))
   \<and> length (filter is_post (trace (snd (update_status_in_sheet w i st dn s))))
       = length (filter is_post (trace s)) + 1
   \<and> fst (process_password_change (w\<lparr>post_result := p\<rparr>) url pw dname row_ix s)
       = fst (process_password_change w url pw dname row_ix s)
   \<and> run_task (w\<lparr>post_result := p\<rparr>) d = run_task w d"
  by (simp add: update_status_in_sheet_run Let_def process_password_change_post
      process_single_domain_post run_task_def)

section \<open>What a whole task emits\<close>

lemma emits_new_driver: "(\<And>r. P [Call NewDriver r]) \<Longrightarrow> emits P (new_driver w)"
  by (simp add: emits_def new_driver_def split: option.splits)

lemma emits_finally_block:
  assumes ap: "appendable P" and q: "\<And>r. P [Call Quit r]" and pr: "\<And>m. P [Print m]"
  shows "emits P (finally_block w dname)"
proof (rule emitsI)
  fix s r s'
  assume run: "finally_block w dname s = (r, s')"
  show "\<exists>es. trace s' = trace s @ es \<and> P es"
  proof (cases "driver s")
    case False
    with run have "s' = s" by (simp add: finally_block_skipped)
    with appendable_Nil[OF ap] show ?thesis by simp
  next
    case True
    from finally_block_closed[OF True, of w dname] run obtain x m where
      "trace s' = trace s @ [Call Quit x, Print m]" by auto
    moreover have "P ([Call Quit x] @ [Print m])" by (rule appendableD[OF ap q pr])
    ultimately show ?thesis by simp
  qed
qed

lemma emits_try_body:
  assumes ad: "admits P" and nd: "\<And>r. P [Call NewDriver r]"
  shows "emits P (try_body w url pw dname row_ix)"
proof -
  note ap = admits_appendable[OF ad]
  have pr: "\<And>m. emits P (print m)"
    by (rule steady_emits, rule steady_print, rule admits_plain[OF ad]) (simp add: plain_def)
  have r: "\<And>v. emits P (ret v)"
    by (rule steady_emits, rule steady_ret, rule admits_Nil[OF ad])
  have ss: "emits P (session_steps w url pw dname row_ix)"
    by (rule steady_emits[OF steady_session_steps[OF ad]])
  show ?thesis
    unfolding try_body_def
    by (simp add: emits_seq[OF ap] pr r ss emits_new_driver[of P, OF nd])
qed

lemma emits_process_password_change:
  assumes ad: "admits P" and nd: "\<And>r. P [Call NewDriver r]" and q: "\<And>r. P [Call Quit r]"
  shows "emits P (process_password_change w url pw dname row_ix)"
proof -
  note ap = admits_appendable[OF ad]
  have pr: "\<And>m. P [Print m]"
    by (rule admits_plain[OF ad]) (simp add: plain_def)
  have inner: "emits P (try_finally
       (try_except (try_body w url pw dname row_ix) (except_block w dname row_ix))
       (finally_block w dname))"
    by (intro emits_try_finally[OF ap] emits_try_except[OF ap] emits_try_body[OF ad nd]
          steady_emits[OF steady_except_block[OF ad]] emits_finally_block[OF ap q pr])
  show ?thesis
  proof (rule emitsI)
    fix s r s'
    assume "process_password_change w url pw dname row_ix s = (r, s')"
    then have "try_finally
       (try_except (try_body w url pw dname row_ix) (except_block w dname row_ix))
       (finally_block w dname) (s\<lparr>driver := False\<rparr>) = (r, s')"
      by (simp add: process_password_change_def)
    from emitsD[OF inner this] show "\<exists>es. trace s' = trace s @ es \<and> P es" by simp
  qed
qed

text \<open>Lines 325 to 333: what follows the four lines a task prints first.\<close>

lemma emits_task_rest:
  assumes ad: "admits P" and nd: "\<And>r. P [Call NewDriver r]" and q: "\<And>r. P [Call Quit r]"
  shows "emits P (if admin_password d = [] \<or> activation_url d = []
        then seq (print (Skipping (domain_name d))) (ret False)
        else try_except
               (process_password_change w (activation_url d) (admin_password d)
                  (domain_name d) (row_index d))
               (\<lambda>e. seq (print (ErrorProcessing (domain_name d) e)) (ret False)))"
proof -
  note ap = admits_appendable[OF ad]
  have pr: "\<And>m. emits P (print m)"
    by (rule steady_emits, rule steady_print, rule admits_plain[OF ad]) (simp add: plain_def)
  have r: "\<And>v. emits P (ret v)"
    by (rule steady_emits, rule steady_ret, rule admits_Nil[OF ad])
  show ?thesis
    by (simp add: emits_seq[OF ap] emits_try_except[OF ap] pr r
        emits_process_password_change[OF ad nd q])
qed

lemma process_single_domain_prefix:
  "process_single_domain w d s =
     (if admin_password d = [] \<or> activation_url d = []
        then seq (print (Skipping (domain_name d))) (ret False)
        else try_except
               (process_password_change w (activation_url d) (admin_password d)
                  (domain_name d) (row_index d))
               (\<lambda>e. seq (print (ErrorProcessing (domain_name d) e)) (ret False)))
       (s\<lparr>trace := trace s @
          [Print (ThreadBanner (thread_name w) (thread_ident w) (row_index d) (total_rows d)),
           Print (Domain (domain_name d)),
           Print (AdminPassword (admin_password d)),
           Print (ActivationUrl (activation_url d))]\<rparr>)"
  by (simp add: process_single_domain_def seq_def bnd_def print_def emit_def)

lemma emits_process_single_domain:
  assumes ad: "admits P" and nd: "\<And>r. P [Call NewDriver r]" and q: "\<And>r. P [Call Quit r]"
  shows "emits P (process_single_domain w d)"
proof -
  note ap = admits_appendable[OF ad]
  have pr: "\<And>m. emits P (print m)"
    by (rule steady_emits, rule steady_print, rule admits_plain[OF ad]) (simp add: plain_def)
  show ?thesis
    unfolding process_single_domain_def
    by (intro emits_seq[OF ap] pr emits_task_rest[OF ad nd q])
qed

lemma admits_any: "admits (\<lambda>es. True)"
  by (simp add: admits_def appendable_def)

section \<open>The console shows the password\<close>

lemma console_append: "console (a @ b) = console a @ console b"
  by (induction a rule: console.induct) simp_all

lemma task_console:
  "\<exists>ms. console (trace (snd (process_single_domain w d start))) =
     [ThreadBanner (thread_name w) (thread_ident w) (row_index d) (total_rows d),
      Domain (domain_name d), AdminPassword (admin_password d),
      ActivationUrl (activation_url d)] @ ms"
proof -
  let ?rest = "if admin_password d = [] \<or> activation_url d = []
        then seq (print (Skipping (domain_name d))) (ret False)
        else try_except
               (process_password_change w (activation_url d) (admin_password d)
                  (domain_name d) (row_index d))
               (\<lambda>e. seq (print (ErrorProcessing (domain_name d) e)) (ret False))"
  let ?s4 = "start\<lparr>trace := trace start @
          [Print (ThreadBanner (thread_name w) (thread_ident w) (row_index d) (total_rows d)),
           Print (Domain (domain_name d)),
           Print (AdminPassword (admin_password d)),
           Print (ActivationUrl (activation_url d))]\<rparr>"
  have "emits (\<lambda>es. True) ?rest"
    by (rule emits_task_rest[OF admits_any]) simp_all
  then obtain es where "trace (snd (?rest ?s4)) = trace ?s4 @ es"
    unfolding emits_def by blast
  then have "console (trace (snd (process_single_domain w d start))) =
     [ThreadBanner (thread_name w) (thread_ident w) (row_index d) (total_rows d),
      Domain (domain_name d), AdminPassword (admin_password d),
      ActivationUrl (activation_url d)] @ console es"
    by (simp add: process_single_domain_prefix console_append start_def)
  then show ?thesis by blast
qed

text \<open>
  C10. The third line a task writes to the console is the record's password, as it is:
  two tasks that differ only in the password write different console output, whatever
  the page and the transport do.
\<close>

theorem console_output_reveals_password:
  "console (trace (snd (process_single_domain w d start))) ! 2 = AdminPassword (admin_password d)
   \<and> (p \<noteq> p' \<longrightarrow>
        console (trace (snd (process_single_domain w (d\<lparr>admin_password := p\<rparr>) start)))
        \<noteq> console (trace (snd (process_single_domain w (d\<lparr>admin_password := p'\<rparr>) start))))"
proof -
  have third: "\<And>d. console (trace (snd (process_single_domain w d start))) ! 2
      = AdminPassword (admin_password d)"
  proof -
    fix d
    from task_console[of w d] obtain ms where
      "console (trace (snd (process_single_domain w d start))) =
       [ThreadBanner (thread_name w) (thread_ident w) (row_index d) (total_rows d),
        Domain (domain_name d), AdminPassword (admin_password d),
        ActivationUrl (activation_url d)] @ ms" by blast
    then show "console (trace (snd (process_single_domain w d start))) ! 2
      = AdminPassword (admin_password d)" by simp
  qed
  have "p \<noteq> p' \<longrightarrow>
        console (trace (snd (process_single_domain w (d\<lparr>admin_password := p\<rparr>) start)))
        \<noteq> console (trace (snd (process_single_domain w (d\<lparr>admin_password := p'\<rparr>) start)))"
  proof
    assume ne: "p \<noteq> p'"
    show "console (trace (snd (process_single_domain w (d\<lparr>admin_password := p\<rparr>) start)))
        \<noteq> console (trace (snd (process_single_domain w (d\<lparr>admin_password := p'\<rparr>) start)))"
    proof
      assume "console (trace (snd (process_single_domain w (d\<lparr>admin_password := p\<rparr>) start)))
        = console (trace (snd (process_single_domain w (d\<lparr>admin_password := p'\<rparr>) start)))"
      then have "console (trace (snd (process_single_domain w (d\<lparr>admin_password := p\<rparr>) start))) ! 2
        = console (trace (snd (process_single_domain w (d\<lparr>admin_password := p'\<rparr>) start))) ! 2"
        by simp
      with third[of "d\<lparr>admin_password := p\<rparr>"] third[of "d\<lparr>admin_password := p'\<rparr>"] ne
      show False by simp
    qed
  qed
  with third[of d] show ?thesis by blast
qed

theorem console_output_reveals_password_witness:
  "''secret123'' \<noteq> ''secret124''
   \<and> console (trace (snd (process_single_domain page_ok (acme\<lparr>admin_password := ''secret123''\<rparr>) start)))
     \<noteq> console (trace (snd (process_single_domain page_ok (acme\<lparr>admin_password := ''secret124''\<rparr>) start)))"
  using console_output_reveals_password[of page_ok acme "''secret123''" "''secret124''"]
  by simp

section \<open>Runs on concrete pages\<close>

text \<open>
  The equations that run a program on a given state, and the congruence rules that make
  the simplifier evaluate what a \<^verbatim>\<open>case\<close> inspects before its branches.
\<close>

lemmas run_defs = ret_def bnd_def seq_def try_except_def try_except_timeout_def try_finally_def
  emit_def print_def perform_def call_unit_def call_title_def call_wait_def call_find_def
  call_post_def sleep_def new_driver_def update_status_in_sheet_def fill_first_two_def
  change_step_def password_step_def confirm_step_def session_steps_def try_body_def
  except_block_def finally_block_def process_password_change_def process_single_domain_def
  run_task_def start_def truthy_def

lemmas run_congs = prod.case_cong_weak sum.case_cong_weak exn.case_cong_weak
  option.case_cong_weak

lemmas page_defs = page_ok_def page_no_ack_def page_one_field_def acme_def
  google_confirm_selectors_def password_selectors_def change_password_selectors_def

lemma run_page_ok: "run_task page_ok acme = Inr True"
  by (simp add: run_defs page_defs cong: run_congs)

theorem session_closed_on_every_exit_witness:
  "(\<exists>pre r m. trace (snd (process_password_change page_ok ''https://x/y'' ''secret123'' ''acme.com'' 1 start))
       = pre @ [Call Quit r, Print m]
     \<and> length (filter is_open pre) = 1 \<and> filter is_quit pre = [])
   \<and> fst (process_password_change page_ok ''https://x/y'' ''secret123'' ''acme.com'' 1 start)
       = Inr True
   \<and> fst (process_password_change page_get_fails ''https://x/y'' ''secret123'' ''acme.com'' 1 start)
       = Inr False"
proof -
  let ?run = "process_password_change page_ok ''https://x/y'' ''secret123'' ''acme.com'' 1 start"
  have ev: "filter is_open (trace (snd ?run)) \<noteq> []"
    by (simp add: run_defs page_defs cong: run_congs)
  have body_ok: "fst (try_body page_ok ''https://x/y'' ''secret123'' ''acme.com'' 1
      (start\<lparr>driver := False\<rparr>)) = Inr True"
    by (simp add: run_defs page_defs cong: run_congs)
  have body_raises: "fst (try_body page_get_fails ''https://x/y'' ''secret123'' ''acme.com'' 1
      (start\<lparr>driver := False\<rparr>)) = Inl (OtherException ''ERR_NAME_NOT_RESOLVED'')"
    by (simp add: run_defs page_defs page_get_fails_def cong: run_congs)
  from session_closed_on_every_exit[of page_ok "''https://x/y''" "''secret123''" "''acme.com''" 1 start]
  obtain s' es where run: "?run = (Inr True, s')" and t: "trace s' = trace start @ es"
    and alt: "(filter is_open es = [] \<and> filter is_quit es = [])
        \<or> (\<exists>pre r m. es = pre @ [Call Quit r, Print m]
              \<and> length (filter is_open pre) = 1 \<and> filter is_quit pre = [])"
    unfolding body_ok by auto
  from t run have es: "es = trace (snd ?run)" by (simp add: start_def)
  from ev es have "filter is_open es \<noteq> []" by simp
  with alt obtain pre r m where "es = pre @ [Call Quit r, Print m]"
    and "length (filter is_open pre) = 1" and "filter is_quit pre = []" by blast
  with es have a: "\<exists>pre r m. trace (snd ?run) = pre @ [Call Quit r, Print m]
     \<and> length (filter is_open pre) = 1 \<and> filter is_quit pre = []" by metis
  from run have b: "fst ?run = Inr True" by simp
  from session_closed_on_every_exit[of page_get_fails "''https://x/y''" "''secret123''"
      "''acme.com''" 1 start]
  have c: "fst (process_password_change page_get_fails ''https://x/y'' ''secret123'' ''acme.com'' 1 start)
       = Inr False"
    unfolding body_raises by auto
  from a b c show ?thesis by blast
qed

theorem write_back_failure_is_only_logged_witness:
  "update_status_in_sheet transport_down 1 ''success'' (Some ''acme.com'') start =
     (Inr (), start\<lparr>trace := trace start @ [Acquire,
        Call (Post 1 ''success'' (Some ''acme.com'')) (Some (OtherException ''connection refused'')),
        Print (StatusError (OtherException ''connection refused'')), Release]\<rparr>)
   \<and> update_status_in_sheet transport_500 1 ''success'' (Some ''acme.com'') start =
     (Inr (), start\<lparr>trace := trace start @ [Acquire,
        Call (Post 1 ''success'' (Some ''acme.com'')) None,
        Print (StatusFailed 500), Release]\<rparr>)
   \<and> run_task transport_down acme = Inr True"
proof -
  from write_back_failure_is_only_logged[of transport_down start 1 "''success''" "Some ''acme.com''"]
  have a: "update_status_in_sheet transport_down 1 ''success'' (Some ''acme.com'') start =
     (Inr (), start\<lparr>trace := trace start @ [Acquire,
        Call (Post 1 ''success'' (Some ''acme.com'')) (Some (OtherException ''connection refused'')),
        Print (StatusError (OtherException ''connection refused'')), Release]\<rparr>)"
    by (simp add: transport_down_def truthy_def)
  from write_back_failure_is_only_logged[of transport_500 start 1 "''success''" "Some ''acme.com''"]
  have b: "update_status_in_sheet transport_500 1 ''success'' (Some ''acme.com'') start =
     (Inr (), start\<lparr>trace := trace start @ [Acquire,
        Call (Post 1 ''success'' (Some ''acme.com'')) None,
        Print (StatusFailed 500), Release]\<rparr>)"
    by (simp add: transport_500_def truthy_def)
  from write_back_failure_is_only_logged[of page_ok start 1 "''success''" "Some ''acme.com''"
      "\<lambda>tr c. Inl (OtherException ''connection refused'')" "[]" "[]" "[]" 0 acme]
  have c: "run_task transport_down acme = Inr True"
    using run_page_ok by (simp add: transport_down_def)
  from a b c show ?thesis by blast
qed

section \<open>Reporting when a step fails without raising\<close>

text \<open>
  C1. On a page without an acknowledgment control every wait of the first loop times
  out, \<^verbatim>\<open>process_password_change\<close> returns \<^verbatim>\<open>False\<close> at line 192, and the task ends
  without a single call of the transport: no outcome is reported for the record. On the
  page that works the task makes exactly one such call.
\<close>

theorem no_report_when_acknowledgment_missing:
  "run_task page_no_ack acme = Inr False
   \<and> filter is_post (trace (snd (process_single_domain page_no_ack acme start))) = []
   \<and> length (filter is_post (trace (snd (process_single_domain page_ok acme start)))) = 1"
  by (simp add: run_defs page_defs cong: run_congs)

section \<open>Gathering and filling the password fields\<close>










section \<open>One field found twice\<close>



section \<open>The tally\<close>











section \<open>One write-back at a time\<close>

lemma lock_ok_append: "lock_ok h a \<Longrightarrow> lock_ok False b \<Longrightarrow> lock_ok h (a @ b)"
  by (induction h a rule: lock_ok.induct) auto

lemma lock_ok_plain: "plain e \<Longrightarrow> lock_ok False [e]"
  by (cases e) (auto simp: plain_def)

lemma admits_lock_ok: "admits (lock_ok False)"
  by (simp add: admits_def appendable_def lock_ok_append lock_ok_plain)

lemma task_lock_ok: "lock_ok False (trace (snd (process_single_domain w d start)))"
proof -
  have "emits (lock_ok False) (process_single_domain w d)"
    by (rule emits_process_single_domain[OF admits_lock_ok]) simp_all
  then obtain es where "trace (snd (process_single_domain w d start)) = trace start @ es"
    and "lock_ok False es" unfolding emits_def by blast
  then show ?thesis by (simp add: start_def)
qed

lemma lock_inv_initial: "lock_inv (initial tasks)"
  by (auto simp: lock_inv_def initial_def task_lock_ok split: prod.splits)

lemma lock_inv_step:
  assumes "step cfg cfg'" and "lock_inv cfg"
  shows "lock_inv cfg'"
  using assms
proof (induction rule: step.induct)
  case (step_print i ws m es l)
  show ?case unfolding lock_inv_def
  proof (intro allI impI)
    fix j assume "j < length (snd (l, ws[i := (False, es)]))"
    then have j: "j < length ws" by simp
    from step_print.prems j have "lock_ok (l = Some j) (snd (ws ! j))"
      by (simp add: lock_inv_def)
    with step_print.hyps j
    show "lock_ok (fst (l, ws[i := (False, es)]) = Some j) (snd (snd (l, ws[i := (False, es)]) ! j))"
      by (cases "j = i") auto
  qed
next
  case (step_begin i ws c r es l)
  show ?case unfolding lock_inv_def
  proof (intro allI impI)
    fix j assume "j < length (snd (l, ws[i := (True, Call c r # es)]))"
    then have j: "j < length ws" by simp
    from step_begin.prems j have "lock_ok (l = Some j) (snd (ws ! j))"
      by (simp add: lock_inv_def)
    with step_begin.hyps j
    show "lock_ok (fst (l, ws[i := (True, Call c r # es)]) = Some j)
        (snd (snd (l, ws[i := (True, Call c r # es)]) ! j))"
      by (cases "j = i") auto
  qed
next
  case (step_return i ws c r es l)
  show ?case unfolding lock_inv_def
  proof (intro allI impI)
    fix j assume "j < length (snd (l, ws[i := (False, es)]))"
    then have j: "j < length ws" by simp
    from step_return.prems j have "lock_ok (l = Some j) (snd (ws ! j))"
      by (simp add: lock_inv_def)
    with step_return.hyps j
    show "lock_ok (fst (l, ws[i := (False, es)]) = Some j) (snd (snd (l, ws[i := (False, es)]) ! j))"
      by (cases "j = i") auto
  qed
next
  case (step_acquire i ws es l)
  show ?case unfolding lock_inv_def
  proof (intro allI impI)
    fix j assume "j < length (snd (Some i, ws[i := (False, es)]))"
    then have j: "j < length ws" by simp
    from step_acquire.prems j have "lock_ok (l = Some j) (snd (ws ! j))"
      by (simp add: lock_inv_def)
    with step_acquire.hyps j
    show "lock_ok (fst (Some i, ws[i := (False, es)]) = Some j)
        (snd (snd (Some i, ws[i := (False, es)]) ! j))"
      by (cases "j = i") auto
  qed
next
  case (step_release i ws es l)
  from step_release.prems step_release.hyps have held: "l = Some i"
    by (auto simp: lock_inv_def)
  show ?case unfolding lock_inv_def
  proof (intro allI impI)
    fix j assume "j < length (snd (None, ws[i := (False, es)]))"
    then have j: "j < length ws" by simp
    from step_release.prems j have "lock_ok (l = Some j) (snd (ws ! j))"
      by (simp add: lock_inv_def)
    with step_release.hyps j held
    show "lock_ok (fst (None, ws[i := (False, es)]) = Some j)
        (snd (snd (None, ws[i := (False, es)]) ! j))"
      by (cases "j = i") auto
  qed
qed

lemma lock_inv_reachable:
  assumes "step\<^sup>*\<^sup>* (initial tasks) cfg"
  shows "lock_inv cfg"
  using assms
  by (induction rule: rtranclp_induct) (auto intro: lock_inv_initial lock_inv_step)

lemma in_transport_holds:
  assumes "lock_ok h (snd wk)" and "in_transport wk"
  shows "h"
proof (cases wk)
  case (Pair b es)
  with assms show ?thesis
    by (cases es; cases "hd es" rule: is_post.cases) auto
qed

lemma at_most_one:
  assumes "\<forall>i < length xs. P (xs ! i) \<longrightarrow> i = k"
  shows "length (filter P xs) \<le> 1"
  using assms
proof (induction xs arbitrary: k)
  case Nil
  show ?case by simp
next
  case (Cons x xs)
  show ?case
  proof (cases "P x")
    case True
    with Cons.prems have k: "k = 0" by auto
    have "\<forall>y\<in>set xs. \<not> P y"
    proof
      fix y assume "y \<in> set xs"
      then obtain i where i: "i < length xs" and y: "xs ! i = y"
        by (auto simp: in_set_conv_nth)
      show "\<not> P y"
      proof
        assume "P y"
        with Cons.prems[rule_format, of "Suc i"] i y k show False by simp
      qed
    qed
    then have "filter P xs = []" by (simp add: filter_empty_conv)
    with True show ?thesis by simp
  next
    case False
    have "\<forall>i < length xs. P (xs ! i) \<longrightarrow> i = k - 1"
    proof (intro allI impI)
      fix i assume "i < length xs" and "P (xs ! i)"
      with Cons.prems[rule_format, of "Suc i"] show "i = k - 1" by simp
    qed
    from Cons.IH[OF this] False show ?thesis by simp
  qed
qed

text \<open>
  C9. Take any number of tasks, each with its own page and transport behaviour, running
  as workers that interleave in any way, with \<^verbatim>\<open>sheet_update_lock\<close> granted only
  while nobody holds it. In every configuration they can reach, at most one worker is
  inside \<^verbatim>\<open>requests.post\<close>: every such call of a task lies between the acquisition
  and the release of the lock by \<^verbatim>\<open>with sheet_update_lock\<close>.
\<close>

theorem one_write_back_in_flight:
  assumes "step\<^sup>*\<^sup>* (initial tasks) cfg"
  shows "depth cfg \<le> 1"
proof -
  from lock_inv_reachable[OF assms] have inv: "lock_inv cfg" .
  obtain l ws where cfg: "cfg = (l, ws)" by (cases cfg)
  have "\<forall>i < length ws. in_transport (ws ! i) \<longrightarrow> i = (case l of None \<Rightarrow> 0 | Some k \<Rightarrow> k)"
  proof (intro allI impI)
    fix i assume i: "i < length ws" and t: "in_transport (ws ! i)"
    from inv cfg i have "lock_ok (l = Some i) (snd (ws ! i))" by (simp add: lock_inv_def)
    from in_transport_holds[OF this t] show "i = (case l of None \<Rightarrow> 0 | Some k \<Rightarrow> k)"
      by simp
  qed
  from at_most_one[OF this] cfg show ?thesis by (simp add: depth_def)
qed

lemma solo_run:
  assumes "list_all lock_free es1"
  shows "i < length ws \<Longrightarrow> ws ! i = (False, es1 @ es2)
     \<Longrightarrow> step\<^sup>*\<^sup>* (l, ws) (l, ws[i := (False, es2)])"
  using assms
proof (induction es1 arbitrary: ws)
  case Nil
  then have "ws[i := (False, es2)] = ws" by (simp add: list_update_same_conv)
  then show ?case by simp
next
  case (Cons e es1)
  let ?ws = "ws[i := (False, es1 @ es2)]"
  from Cons.prems have free: "list_all lock_free es1" and e: "lock_free e" by simp_all
  from Cons.prems have i: "i < length ?ws" and at: "?ws ! i = (False, es1 @ es2)" by simp_all
  from Cons.IH[OF i at free] have rest: "step\<^sup>*\<^sup>* (l, ?ws) (l, ws[i := (False, es2)])"
    by simp
  show ?case
  proof (cases e)
    case (Print m)
    with Cons.prems have "step (l, ws) (l, ?ws)"
      by (intro step_print) simp_all
    then show ?thesis using rest by (rule converse_rtranclp_into_rtranclp)
  next
    case (Call c r)
    with Cons.prems have a: "step (l, ws) (l, ws[i := (True, Call c r # es1 @ es2)])"
      by (intro step_begin) simp_all
    have "step (l, ws[i := (True, Call c r # es1 @ es2)])
        (l, (ws[i := (True, Call c r # es1 @ es2)])[i := (False, es1 @ es2)])"
      using Cons.prems by (intro step_return) simp_all
    then have b: "step (l, ws[i := (True, Call c r # es1 @ es2)]) (l, ?ws)" by simp
    from b rest have "step\<^sup>*\<^sup>* (l, ws[i := (True, Call c r # es1 @ es2)]) (l, ws[i := (False, es2)])"
      by (rule converse_rtranclp_into_rtranclp)
    with a show ?thesis by (rule converse_rtranclp_into_rtranclp)
  next
    case Acquire
    with e show ?thesis by (simp add: lock_free_def)
  next
    case Release
    with e show ?thesis by (simp add: lock_free_def)
  qed
qed

theorem one_write_back_in_flight_witness:
  "step\<^sup>*\<^sup>* (initial two_tasks) one_posting
   \<and> in_transport (snd one_posting ! 0)
   \<and> depth one_posting \<le> 1"
proof -
  define T where "T = trace (snd (process_single_domain page_ok acme start))"
  define pre where "pre = takeWhile lock_free T"
  have tail: "dropWhile lock_free T = Acquire # write_back_events"
    unfolding T_def
    by (simp add: run_defs page_defs lock_free_def write_back_events_def cong: run_congs)
  have T: "T = pre @ Acquire # write_back_events"
    using takeWhile_dropWhile_id[of lock_free T] tail by (simp add: pre_def)
  have free: "list_all lock_free pre"
    by (simp add: pre_def list_all_iff) (meson set_takeWhileD)
  have init: "initial two_tasks = (None, [(False, pre @ Acquire # write_back_events),
      (False, pre @ Acquire # write_back_events)])"
    by (simp add: initial_def two_tasks_def T_def[symmetric] T[symmetric])
  have s1: "step\<^sup>*\<^sup>* (None, [(False, pre @ Acquire # write_back_events),
        (False, pre @ Acquire # write_back_events)])
      (None, [(False, Acquire # write_back_events), (False, pre @ Acquire # write_back_events)])"
    using solo_run[OF free, of 0 "[(False, pre @ Acquire # write_back_events),
        (False, pre @ Acquire # write_back_events)]" "Acquire # write_back_events" None]
    by simp
  have s2: "step (None, [(False, Acquire # write_back_events),
        (False, pre @ Acquire # write_back_events)])
      (Some 0, [(False, write_back_events), (False, pre @ Acquire # write_back_events)])"
    using step_acquire[of 0 "[(False, Acquire # write_back_events),
        (False, pre @ Acquire # write_back_events)]" write_back_events None]
    by simp
  have s3: "step (Some 0, [(False, write_back_events), (False, pre @ Acquire # write_back_events)])
      (Some 0, [(True, write_back_events), (False, pre @ Acquire # write_back_events)])"
    using step_begin[of 0 "[(False, write_back_events),
        (False, pre @ Acquire # write_back_events)]"
        "Post 1 ''success'' (Some ''acme.com'')" None
        "tl write_back_events" "Some 0"]
    by (simp add: write_back_events_def)
  have s4: "step\<^sup>*\<^sup>* (Some 0, [(True, write_back_events),
        (False, pre @ Acquire # write_back_events)])
      (Some 0, [(True, write_back_events), (False, Acquire # write_back_events)])"
    using solo_run[OF free, of 1 "[(True, write_back_events),
        (False, pre @ Acquire # write_back_events)]" "Acquire # write_back_events" "Some 0"]
    by simp
  from s1 s2 have "step\<^sup>*\<^sup>* (initial two_tasks)
      (Some 0, [(False, write_back_events), (False, pre @ Acquire # write_back_events)])"
    unfolding init by (rule rtranclp.rtrancl_into_rtrancl)
  from this s3 have "step\<^sup>*\<^sup>* (initial two_tasks)
      (Some 0, [(True, write_back_events), (False, pre @ Acquire # write_back_events)])"
    by (rule rtranclp.rtrancl_into_rtrancl)
  from this s4 have reach: "step\<^sup>*\<^sup>* (initial two_tasks) one_posting"
    unfolding one_posting_def by (rule rtranclp_trans)
  have busy: "in_transport (snd one_posting ! 0)"
    by (simp add: one_posting_def write_back_events_def)
  from one_write_back_in_flight[OF reach] reach busy show ?thesis by blast
qed


end
